theory Spec2Isabelle
  imports Complex_Main "HOL-Library.Word"
begin

section \<open>JavaScript numbers\<close>

text \<open>
  A JavaScript \<^verbatim>\<open>number\<close> is an IEEE 754 double. A finite double is modelled by the
  rational it denotes, and every arithmetic operation returns the exact result rounded
  to the nearest double, ties to even (\<open>fl\<close>). The exponent range is not bounded in the
  model: the magnitudes that occur in this program (pixel counts, sums of grey values,
  quotients and products of them) are far from the overflow and underflow thresholds.
  Integer-valued quantities (counts, indices, sums of \<open>i * histogram[i]\<close>) are kept as
  \<open>nat\<close> or \<open>int\<close>: they are exact in a double below \<open>2 ^ 53\<close>.
\<close>

fun log2floor :: "nat \<Rightarrow> nat" where
  "log2floor n = (if n < 2 then 0 else Suc (log2floor (n div 2)))"

declare log2floor.simps [simp del]

definition log2ceil :: "nat \<Rightarrow> nat" where
  "log2ceil n = (if n \<le> 1 then 0 else Suc (log2floor (n - 1)))"

text \<open>The exponent \<open>e\<close> with \<open>2 ^ e \<le> x < 2 ^ (e + 1)\<close>, for \<open>x > 0\<close>.\<close>

definition binade :: "rat \<Rightarrow> int" where
  "binade x = (if 1 \<le> x then int (log2floor (nat \<lfloor>x\<rfloor>))
               else - int (log2ceil (nat \<lceil>1 / x\<rceil>)))"

definition pow2 :: "int \<Rightarrow> rat" where
  "pow2 e = (if 0 \<le> e then 2 ^ nat e else 1 / 2 ^ nat (- e))"

definition roundTiesToEven :: "rat \<Rightarrow> int" where
  "roundTiesToEven q =
     (let f = \<lfloor>q\<rfloor>; r = q - of_int f
      in if r < 1 / 2 then f
         else if 1 / 2 < r then f + 1
         else if even f then f else f + 1)"

text \<open>Rounding to a double: 53 significant bits, the last one of weight \<open>2 ^ (e - 52)\<close>.\<close>

definition fl :: "rat \<Rightarrow> rat" where
  "fl x = (if x = 0 then 0
           else let u = pow2 (binade \<bar>x\<bar> - 52)
                in sgn x * of_int (roundTiesToEven (\<bar>x\<bar> / u)) * u)"

definition js_add :: "rat \<Rightarrow> rat \<Rightarrow> rat" where
  "js_add x y = fl (x + y)"

definition js_sub :: "rat \<Rightarrow> rat \<Rightarrow> rat" where
  "js_sub x y = fl (x - y)"

definition js_mul :: "rat \<Rightarrow> rat \<Rightarrow> rat" where
  "js_mul x y = fl (x * y)"

definition js_div :: "rat \<Rightarrow> rat \<Rightarrow> rat" where
  "js_div x y = fl (x / y)"

text \<open>\<^verbatim>\<open>Math.round\<close>: the nearest integer, a tie going towards plus infinity.\<close>

definition Math_round :: "rat \<Rightarrow> int" where
  "Math_round x = \<lfloor>x + 1 / 2\<rfloor>"

text \<open>A store into a \<^verbatim>\<open>Uint8ClampedArray\<close> clamps an integer to \<open>0..255\<close>.\<close>

definition toUint8Clamp :: "int \<Rightarrow> nat" where
  "toUint8Clamp v = nat (max 0 (min 255 v))"


section \<open>Otsu threshold (\<^verbatim>\<open>QrService.calculateOtsuThreshold\<close>)\<close>

text \<open>
  The loop state holds the variables of the source. The field \<open>events\<close> is a ghost
  variable: it records, for every index the loop reaches, whether the iteration was
  skipped by \<^verbatim>\<open>continue\<close>, left the loop by \<^verbatim>\<open>break\<close>, or evaluated the two divisions
  (with the divisors \<open>wB\<close> and \<open>wF\<close> it used and the variance it computed).
\<close>

datatype otsu_event =
    Skipped nat
  | Stopped nat
  | Evaluated nat nat int rat

record otsu_state =
  sumB :: nat
  wB :: nat
  wF :: int
  maxVariance :: rat
  threshold :: nat
  events :: "otsu_event list"

definition otsu_init :: otsu_state where
  "otsu_init = \<lparr>sumB = 0, wB = 0, wF = 0, maxVariance = 0, threshold = 0, events = []\<rparr>"

text \<open>
  \<^verbatim>\<open>const variance = wB * wF * (mB - mF) * (mB - mF)\<close> is evaluated from left to right,
  each product rounded.
\<close>

definition between_class_variance :: "nat \<Rightarrow> int \<Rightarrow> nat \<Rightarrow> int \<Rightarrow> rat" where
  "between_class_variance b f sb sf =
     (let mB = js_div (of_nat sb) (of_nat b);
          mF = js_div (of_int sf) (of_int f)
      in js_mul (js_mul (js_mul (of_nat b) (of_int f)) (js_sub mB mF)) (js_sub mB mF))"

fun otsu_loop :: "nat list \<Rightarrow> nat \<Rightarrow> nat \<Rightarrow> nat list \<Rightarrow> otsu_state \<Rightarrow> otsu_state" where
  "otsu_loop histogram tot isum [] s = s"
| "otsu_loop histogram tot isum (i # rest) s =
     (let b = wB s + histogram ! i in
      if b = 0 then
        otsu_loop histogram tot isum rest (s\<lparr>wB := b, events := events s @ [Skipped i]\<rparr>)
      else
        let f = int tot - int b in
        if f = 0 then s\<lparr>wB := b, wF := f, events := events s @ [Stopped i]\<rparr>
        else
          let sb = sumB s + i * histogram ! i;
              variance = between_class_variance b f sb (int isum - int sb);
              s' = s\<lparr>sumB := sb, wB := b, wF := f,
                     events := events s @ [Evaluated i b f variance]\<rparr>
          in otsu_loop histogram tot isum rest
               (if maxVariance s < variance
                then s'\<lparr>maxVariance := variance, threshold := i\<rparr> else s'))"

definition otsu_run :: "nat list \<Rightarrow> otsu_state" where
  "otsu_run histogram =
     (let tot = foldl (\<lambda>acc count. acc + count) 0 histogram;
          isum = foldl (\<lambda>acc i. acc + i * histogram ! i) 0 [0..<256]
      in otsu_loop histogram tot isum [0..<256] otsu_init)"

definition calculateOtsuThreshold :: "nat list \<Rightarrow> nat" where
  "calculateOtsuThreshold histogram = threshold (otsu_run histogram)"


section \<open>Images and the external collaborators\<close>

text \<open>
  A Jimp image: \<^verbatim>\<open>bitmap.width\<close>, \<^verbatim>\<open>bitmap.height\<close> and \<^verbatim>\<open>bitmap.data\<close>, the RGBA bytes in
  row-major order, four per pixel. Jimp keeps \<open>length data = 4 * width * height\<close>.
  \<^verbatim>\<open>clone()\<close> copies the image; with values instead of references it is the identity.
\<close>

type_synonym byte = "8 word"

record bitmap =
  width :: nat
  height :: nat
  data :: "byte list"


text \<open>Everything that can be thrown or can reject a promise.\<close>

datatype thrown =
    NotFoundException
  | ChecksumException
  | FormatException
  | BadRequestException string
  | OtherError string

datatype binarizerType = Hybrid | Global

datatype processing_method =
    Original | Grayscale | Contrast | Threshold | Resize | AggressiveThreshold | EdgeEnhance

text \<open>The custom luminance source handed to the ZXing binarizers.\<close>

record luminanceSource =
  getWidth :: nat
  getHeight :: nat
  getMatrix :: "nat list"

text \<open>
  The libraries the service calls are parameters of the model: \<^verbatim>\<open>Jimp.read\<close>, the Jimp
  image operations (each may throw), and the ZXing pipeline
  \<^verbatim>\<open>new BinaryBitmap(new ...Binarizer(source))\<close>, \<^verbatim>\<open>reader.decode\<close>, \<^verbatim>\<open>getText\<close>, which
  returns the decoded text or throws.
\<close>

record collaborators =
  Jimp_read :: "byte list \<Rightarrow> thrown + bitmap"
  greyscale :: "bitmap \<Rightarrow> thrown + bitmap"
  contrast :: "rat \<Rightarrow> bitmap \<Rightarrow> thrown + bitmap"
  normalize_image :: "bitmap \<Rightarrow> thrown + bitmap"
  resize :: "nat \<Rightarrow> nat \<Rightarrow> bitmap \<Rightarrow> thrown + bitmap"
  convolute :: "int list list \<Rightarrow> bitmap \<Rightarrow> thrown + bitmap"
  reader_decode :: "binarizerType \<Rightarrow> luminanceSource \<Rightarrow> thrown + string"

definition andThen :: "thrown + 'a \<Rightarrow> ('a \<Rightarrow> thrown + 'b) \<Rightarrow> thrown + 'b" where
  "andThen r f = (case r of Inl e \<Rightarrow> Inl e | Inr v \<Rightarrow> f v)"

text \<open>
  \<^verbatim>\<open>image.scan(0, 0, width, height, f)\<close> calls \<open>f\<close> with \<open>idx = (width * y + x) * 4\<close>,
  row by row.
\<close>

definition scan_indices :: "bitmap \<Rightarrow> nat list" where
  "scan_indices img =
     concat (map (\<lambda>y. map (\<lambda>x. (width img * y + x) * 4) [0..<width img]) [0..<height img])"

text \<open>The scan callback of the threshold transforms: \<^verbatim>\<open>gray > cutoff ? 255 : 0\<close>.\<close>

definition set_black_white :: "nat \<Rightarrow> byte list \<Rightarrow> nat \<Rightarrow> byte list" where
  "set_black_white cutoff d idx =
     (let gray = d ! idx;
          v = (if cutoff < unat gray then 255 else 0)
      in d[idx := v, idx + 1 := v, idx + 2 := v])"

definition scan_black_white :: "nat \<Rightarrow> bitmap \<Rightarrow> bitmap" where
  "scan_black_white cutoff img =
     img\<lparr>data := foldl (set_black_white cutoff) (data img) (scan_indices img)\<rparr>"

definition build_histogram :: "bitmap \<Rightarrow> nat list" where
  "build_histogram img =
     foldl (\<lambda>histogram idx.
              let gray = unat (data img ! idx)
              in histogram[gray := histogram ! gray + 1])
           (replicate 256 0) (scan_indices img)"

text \<open>\<^verbatim>\<open>QrService.applyThreshold\<close> (used for the debug images only).\<close>

definition applyThreshold :: "collaborators \<Rightarrow> bitmap \<Rightarrow> thrown + bitmap" where
  "applyThreshold ext img =
     andThen (greyscale ext img) (\<lambda>g. Inr (scan_black_white 128 g))"

text \<open>The \<^verbatim>\<open>switch (method)\<close> of \<^verbatim>\<open>tryDecodeWithProcessing\<close>, applied to the clone.\<close>

definition sharpen_kernel :: "int list list" where
  "sharpen_kernel = [[-1, -1, -1], [-1, 9, -1], [-1, -1, -1]]"

fun preprocess :: "collaborators \<Rightarrow> processing_method \<Rightarrow> bitmap \<Rightarrow> thrown + bitmap" where
  "preprocess ext Original img = Inr img"
| "preprocess ext Grayscale img = greyscale ext img"
| "preprocess ext Contrast img =
     andThen (greyscale ext img) (\<lambda>a.
     andThen (contrast ext (fl (1 / 2)) a) (\<lambda>b.
     normalize_image ext b))"
| "preprocess ext Threshold img =
     andThen (greyscale ext img) (\<lambda>g.
       let histogram = build_histogram g;
           t = calculateOtsuThreshold histogram
       in Inr (scan_black_white t g))"
| "preprocess ext Resize img =
     (let minDim = min (width img) (height img)
      in if 500 < minDim then
           andThen (resize ext 500 500 img) (\<lambda>a.
           andThen (greyscale ext a) (\<lambda>b.
           normalize_image ext b))
         else Inr img)"
| "preprocess ext AggressiveThreshold img =
     andThen (greyscale ext img) (\<lambda>a.
     andThen (contrast ext (fl (4 / 5)) a) (\<lambda>b.
     Inr (scan_black_white 100 b)))"
| "preprocess ext EdgeEnhance img =
     andThen (greyscale ext img) (\<lambda>a.
     andThen (convolute ext sharpen_kernel a) (\<lambda>b.
     normalize_image ext b))"


section \<open>Luminance extraction and one decode attempt (\<^verbatim>\<open>QrService.decodeWithBinarizer\<close>)\<close>

text \<open>
  \<^verbatim>\<open>Math.round(0.299 * rgba.r + 0.587 * rgba.g + 0.114 * rgba.b)\<close>: the three literals
  are doubles, every product and sum is rounded.
\<close>

definition luminance :: "nat \<Rightarrow> nat \<Rightarrow> nat \<Rightarrow> int" where
  "luminance r g b =
     Math_round
       (js_add (js_add (js_mul (fl (299 / 1000)) (of_nat r)) (js_mul (fl (587 / 1000)) (of_nat g)))
               (js_mul (fl (114 / 1000)) (of_nat b)))"

text \<open>
  \<^verbatim>\<open>Jimp.intToRGBA(image.getPixelColor(x, y))\<close> for a pixel inside the image: the bytes
  at \<open>idx\<close>, \<open>idx + 1\<close>, \<open>idx + 2\<close> with \<open>idx = (width * y + x) * 4\<close> (alpha is not used).
\<close>

definition getPixelRGB :: "bitmap \<Rightarrow> nat \<Rightarrow> nat \<Rightarrow> nat \<times> nat \<times> nat" where
  "getPixelRGB img x y =
     (let idx = (width img * y + x) * 4
      in (unat (data img ! idx), unat (data img ! (idx + 1)), unat (data img ! (idx + 2))))"

text \<open>
  The two nested \<^verbatim>\<open>for\<close> loops. The state is the array and \<^verbatim>\<open>lumIndex\<close>; the array
  starts as \<^verbatim>\<open>new Uint8ClampedArray(width * height)\<close>, all zero.
\<close>

definition luminance_step :: "bitmap \<Rightarrow> nat list \<times> nat \<Rightarrow> nat \<times> nat \<Rightarrow> nat list \<times> nat" where
  "luminance_step img st xy =
     (case st of (arr, lumIndex) \<Rightarrow>
      case xy of (x, y) \<Rightarrow>
      case getPixelRGB img x y of (r, g, b) \<Rightarrow>
        (arr[lumIndex := toUint8Clamp (luminance r g b)], lumIndex + 1))"

definition luminance_row :: "bitmap \<Rightarrow> nat list \<times> nat \<Rightarrow> nat \<Rightarrow> nat list \<times> nat" where
  "luminance_row img st y = foldl (\<lambda>s x. luminance_step img s (x, y)) st [0..<width img]"

definition luminanceArray :: "bitmap \<Rightarrow> nat list" where
  "luminanceArray img =
     fst (foldl (luminance_row img) (replicate (width img * height img) 0, 0) [0..<height img])"

datatype 'a settled = Fulfilled 'a | Rejected thrown

definition decodeWithBinarizer ::
    "collaborators \<Rightarrow> bitmap \<Rightarrow> binarizerType \<Rightarrow> string option settled" where
  "decodeWithBinarizer ext img binarizerType =
     (let source =
            \<lparr>getWidth = width img, getHeight = height img, getMatrix = luminanceArray img\<rparr>
      in (case reader_decode ext binarizerType source of
            Inr decodedText \<Rightarrow> Fulfilled (Some decodedText)
          | Inl NotFoundException \<Rightarrow> Fulfilled None
          | Inl ChecksumException \<Rightarrow> Fulfilled None
          | Inl FormatException \<Rightarrow> Fulfilled None
          | Inl error \<Rightarrow> Rejected error))"


section \<open>One preprocessing method (\<^verbatim>\<open>QrService.tryDecodeWithProcessing\<close>)\<close>

text \<open>
  An attempt is one call of \<^verbatim>\<open>decodeWithBinarizer\<close>: the method, the binarizer and how
  the promise settled. The list of attempts a function returns beside its value is a
  ghost result: the calls it made, in program order.
\<close>

type_synonym attempt = "processing_method \<times> binarizerType \<times> string option settled"

text \<open>
  \<^verbatim>\<open>for (const result of results) if (result.status === 'fulfilled' && result.value)
  return result.value\<close>; the empty string is falsy. \<^verbatim>\<open>Promise.allSettled\<close> delivers
  the outcomes in the order of its argument array.
\<close>

fun firstTruthy :: "string option settled list \<Rightarrow> string option" where
  "firstTruthy [] = None"
| "firstTruthy (result # rest) =
     (case result of
        Fulfilled (Some v) \<Rightarrow> if v \<noteq> [] then Some v else firstTruthy rest
      | Fulfilled None \<Rightarrow> firstTruthy rest
      | Rejected e \<Rightarrow> firstTruthy rest)"

text \<open>
  Both binarizer calls are made when the array literal is evaluated. The \<^verbatim>\<open>catch\<close>
  around the whole body turns an exception of the preprocessing into \<^verbatim>\<open>null\<close>.
\<close>

definition tryDecodeWithProcessing ::
    "collaborators \<Rightarrow> bitmap \<Rightarrow> processing_method \<Rightarrow> string option settled \<times> attempt list" where
  "tryDecodeWithProcessing ext originalImage m =
     (case preprocess ext m originalImage of
        Inl e \<Rightarrow> (Fulfilled None, [])
      | Inr processedImage \<Rightarrow>
          let calls = map (\<lambda>b. (m, b, decodeWithBinarizer ext processedImage b)) [Hybrid, Global];
              results = map (\<lambda>c. snd (snd c)) calls
          in (Fulfilled (firstTruthy results), calls))"


section \<open>Diagnostics (\<^verbatim>\<open>analyzeImageProperties\<close>, \<^verbatim>\<open>saveDebugVersions\<close>)\<close>

text \<open>
  What a run reads from outside the request: the values of \<^verbatim>\<open>Math.random()\<close> (by call
  number), whether \<^verbatim>\<open>NODE_ENV\<close> or \<^verbatim>\<open>DEBUG_QR\<close> switches the debug images on, the clock,
  and whether a file can be written.
\<close>

record environment =
  Math_random :: "nat \<Rightarrow> rat"
  debug_mode :: bool
  Date_now :: "nat \<Rightarrow> nat"
  writeAsync_ok :: "string \<times> nat \<Rightarrow> bool"

record image_analysis =
  totalBrightness :: rat
  darkPixels :: nat
  lightPixels :: nat

text \<open>
  The sampling loop; the figures it gathers go to the debug log only. Both diagnostic
  functions catch everything, return nothing and work on the image read-only or on
  clones.
\<close>

definition analyze_sample :: "environment \<Rightarrow> bitmap \<Rightarrow> image_analysis \<Rightarrow> nat \<Rightarrow> image_analysis" where
  "analyze_sample env img st i =
     (let x = nat \<lfloor>js_mul (Math_random env (2 * i)) (of_nat (width img))\<rfloor>;
          y = nat \<lfloor>js_mul (Math_random env (2 * i + 1)) (of_nat (height img))\<rfloor>
      in case getPixelRGB img x y of (r, g, b) \<Rightarrow>
           let brightness = js_div (of_nat (r + g + b)) 3;
               st' = st\<lparr>totalBrightness := js_add (totalBrightness st) brightness\<rparr>
           in if brightness < 128 then st'\<lparr>darkPixels := darkPixels st + 1\<rparr>
              else st'\<lparr>lightPixels := lightPixels st + 1\<rparr>)"

definition analyzeImageProperties :: "environment \<Rightarrow> bitmap \<Rightarrow> image_analysis" where
  "analyzeImageProperties env img =
     (let sampleSize = min 1000 (width img * height img)
      in foldl (analyze_sample env img)
           \<lparr>totalBrightness = 0, darkPixels = 0, lightPixels = 0\<rparr> [0..<sampleSize])"

definition debug_versions :: "collaborators \<Rightarrow> bitmap \<Rightarrow> thrown + (string \<times> bitmap) list" where
  "debug_versions ext img =
     andThen (greyscale ext img) (\<lambda>v2.
     andThen (andThen (greyscale ext img) (\<lambda>a.
              andThen (contrast ext (fl (1 / 2)) a) (\<lambda>b. normalize_image ext b))) (\<lambda>v3.
     andThen (applyThreshold ext img) (\<lambda>v4.
     Inr [(''original'', img), (''grayscale'', v2), (''contrast'', v3), (''threshold'', v4)])))"

fun write_versions :: "environment \<Rightarrow> nat \<Rightarrow> (string \<times> bitmap) list \<Rightarrow> (string \<times> nat) list" where
  "write_versions env k [] = []"
| "write_versions env k (version # rest) =
     (let filename = (fst version, Date_now env k)
      in if writeAsync_ok env filename then filename # write_versions env (Suc k) rest
         else [])"

definition saveDebugVersions :: "collaborators \<Rightarrow> environment \<Rightarrow> bitmap \<Rightarrow> (string \<times> nat) list" where
  "saveDebugVersions ext env img =
     (if debug_mode env then
        (case debug_versions ext img of
           Inl e \<Rightarrow> []
         | Inr versions \<Rightarrow> write_versions env 0 versions)
      else [])"


section \<open>The decode run (\<^verbatim>\<open>QrService.decodeQrFromBuffer\<close>)\<close>

definition methods :: "processing_method list" where
  "methods = [Original, Grayscale, Contrast, Threshold, Resize, AggressiveThreshold, EdgeEnhance]"

text \<open>
  \<open>returned\<close> is what the promise of \<^verbatim>\<open>decodeQrFromBuffer\<close> settles to: \<open>Inl\<close> a rejection,
  \<open>Inr None\<close> for \<^verbatim>\<open>null\<close>. The other fields are ghost results: the attempts made, the
  figures logged by the analysis and the debug files written.
\<close>

record decode_run =
  returned :: "thrown + string option"
  attempts :: "attempt list"
  analysis :: "image_analysis option"
  debug_files :: "(string \<times> nat) list"

definition decodeQrFromBuffer :: "collaborators \<Rightarrow> environment \<Rightarrow> byte list \<Rightarrow> decode_run" where
  "decodeQrFromBuffer ext env buffer =
     (case Jimp_read ext buffer of
        Inl e \<Rightarrow> \<lparr>returned = Inl e, attempts = [], analysis = None, debug_files = []\<rparr>
      | Inr img \<Rightarrow>
          let a = analyzeImageProperties env img;
              runs = map (tryDecodeWithProcessing ext img) methods;
              results = map fst runs;
              tried = concat (map snd runs)
          in (case firstTruthy results of
                Some v \<Rightarrow>
                  \<lparr>returned = Inr (Some v), attempts = tried, analysis = Some a,
                   debug_files = []\<rparr>
              | None \<Rightarrow>
                  \<lparr>returned = Inr None, attempts = tried, analysis = Some a,
                   debug_files = saveDebugVersions ext env img\<rparr>))"


section \<open>The HTTP handler (\<^verbatim>\<open>QrController.decodeQr\<close>)\<close>

record upload =
  originalname :: string
  file_size :: nat
  mimetype :: string
  buffer :: "byte list"

record response =
  success :: bool
  decoded_text :: "string option"
  error_message :: "string option"
  metadata :: "string \<times> nat \<times> string"

definition decodeQr :: "collaborators \<Rightarrow> environment \<Rightarrow> upload option \<Rightarrow> thrown + response" where
  "decodeQr ext env file =
     (case file of
        None \<Rightarrow> Inl (BadRequestException ''File is required'')
      | Some f \<Rightarrow>
          let md = (originalname f, file_size f, mimetype f);
              notFound = \<lparr>success = False, decoded_text = None,
                          error_message = Some ''No QR code found in the image'', metadata = md\<rparr>
          in (case returned (decodeQrFromBuffer ext env (buffer f)) of
                Inr (Some decodedText) \<Rightarrow>
                  (if decodedText \<noteq> [] then
                     Inr \<lparr>success = True, decoded_text = Some decodedText,
                          error_message = None, metadata = md\<rparr>
                   else Inr notFound)
              | Inr None \<Rightarrow> Inr notFound
              | Inl e \<Rightarrow>
                  Inr \<lparr>success = False, decoded_text = None,
                       error_message = Some ''Failed to process the image'', metadata = md\<rparr>))"


section \<open>Vocabulary of the specification and example inputs\<close>

text \<open>
  The fixed order of the fourteen (transform, binarizer) pairs: the seven transforms in
  the order of the argument array, for each the binarizers hybrid, then global.
\<close>

definition priority_order :: "(processing_method \<times> binarizerType) list" where
  "priority_order = concat (map (\<lambda>m. map (\<lambda>b. (m, b)) [Hybrid, Global]) methods)"

definition pair_of :: "attempt \<Rightarrow> processing_method \<times> binarizerType" where
  "pair_of a = (fst a, fst (snd a))"

definition outcome_of :: "attempt \<Rightarrow> string option settled" where
  "outcome_of a = snd (snd a)"

text \<open>The failures of the decoder that \<^verbatim>\<open>decodeWithBinarizer\<close> turns into \<^verbatim>\<open>null\<close>.\<close>

definition expected_failure :: "thrown \<Rightarrow> bool" where
  "expected_failure e \<longleftrightarrow> e = NotFoundException \<or> e = ChecksumException \<or> e = FormatException"

definition source_of :: "bitmap \<Rightarrow> luminanceSource" where
  "source_of img = \<lparr>getWidth = width img, getHeight = height img, getMatrix = luminanceArray img\<rparr>"

text \<open>
  Example inputs: an image of one pixel, collaborators whose image operations succeed
  (the reader is left open), and an environment with the debug images switched off.
\<close>

definition pixel_image :: bitmap where
  "pixel_image = \<lparr>width = 1, height = 1, data = [0, 36, 12, 255]\<rparr>"

definition stub_collaborators ::
    "(binarizerType \<Rightarrow> luminanceSource \<Rightarrow> thrown + string) \<Rightarrow> collaborators" where
  "stub_collaborators reader =
     \<lparr>Jimp_read = (\<lambda>bytes. Inr pixel_image),
      greyscale = Inr,
      contrast = (\<lambda>c. Inr),
      normalize_image = Inr,
      resize = (\<lambda>w h img. Inr \<lparr>width = w, height = h, data = replicate (4 * (w * h)) 0\<rparr>),
      convolute = (\<lambda>k. Inr),
      reader_decode = reader\<rparr>"

definition quiet_environment :: environment where
  "quiet_environment =
     \<lparr>Math_random = (\<lambda>k. 0), debug_mode = False, Date_now = (\<lambda>k. 0),
      writeAsync_ok = (\<lambda>f. False)\<rparr>"

definition crashing_reader :: "binarizerType \<Rightarrow> luminanceSource \<Rightarrow> thrown + string" where
  "crashing_reader b s = Inl (OtherError ''boom'')"

definition eager_reader :: "binarizerType \<Rightarrow> luminanceSource \<Rightarrow> thrown + string" where
  "eager_reader b s = Inr ''A''"


definition blind_reader :: "binarizerType \<Rightarrow> luminanceSource \<Rightarrow> thrown + string" where
  "blind_reader b s = Inl NotFoundException"

definition empty_upload :: upload where
  "empty_upload =
     \<lparr>originalname = ''blank.png'', file_size = 0, mimetype = ''image/png'', buffer = []\<rparr>"

definition wide_image :: bitmap where
  "wide_image = \<lparr>width = 600, height = 400, data = replicate (4 * (600 * 400)) 0\<rparr>"


section \<open>Vocabulary for the threshold and luminance claims\<close>

text \<open>
  The quantities of the Otsu scan at a candidate \<open>t\<close>, in the words of the specification:
  the background weight and intensity sum are the sums over the bins \<open>0..t\<close>, the
  foreground weight is the total count less the background weight, and the variance is
  the rounded expression of the source on these values.
\<close>

definition wB_at :: "nat list \<Rightarrow> nat \<Rightarrow> nat" where
  "wB_at h t = (\<Sum>i\<le>t. h ! i)"

definition sumB_at :: "nat list \<Rightarrow> nat \<Rightarrow> nat" where
  "sumB_at h t = (\<Sum>i\<le>t. i * h ! i)"

definition total_count :: "nat list \<Rightarrow> nat" where
  "total_count h = sum_list h"

definition intensity_sum :: "nat list \<Rightarrow> nat" where
  "intensity_sum h = (\<Sum>i<256. i * h ! i)"

definition wF_at :: "nat list \<Rightarrow> nat \<Rightarrow> int" where
  "wF_at h t = int (total_count h) - int (wB_at h t)"

definition variance_at :: "nat list \<Rightarrow> nat \<Rightarrow> rat" where
  "variance_at h t =
     between_class_variance (wB_at h t) (wF_at h t) (sumB_at h t)
       (int (intensity_sum h) - int (sumB_at h t))"

text \<open>
  A candidate is valid when it is neither skipped (\<open>wB = 0\<close>) nor at or beyond the stop
  (\<open>wF = 0\<close>); the scan stops at the first \<open>t\<close> with \<open>wB \<noteq> 0\<close> and \<open>wF = 0\<close>. \<open>scan_event\<close>
  is what the specification says happens at \<open>t\<close>.
\<close>

definition valid_threshold :: "nat list \<Rightarrow> nat \<Rightarrow> bool" where
  "valid_threshold h t \<longleftrightarrow> t < 256 \<and> wB_at h t \<noteq> 0 \<and> wF_at h t \<noteq> 0"

definition stops_at :: "nat list \<Rightarrow> nat \<Rightarrow> bool" where
  "stops_at h t \<longleftrightarrow> wB_at h t \<noteq> 0 \<and> wF_at h t = 0"

definition scan_event :: "nat list \<Rightarrow> nat \<Rightarrow> otsu_event" where
  "scan_event h t =
     (if wB_at h t = 0 then Skipped t
      else if wF_at h t = 0 then Stopped t
      else Evaluated t (wB_at h t) (wF_at h t) (variance_at h t))"

text \<open>
  The invariant of the loop before index \<open>k\<close>, and what holds of the state it returns:
  the threshold held is the first valid candidate of maximal variance so far.
\<close>

definition best_so_far :: "nat list \<Rightarrow> nat \<Rightarrow> otsu_state \<Rightarrow> bool" where
  "best_so_far h k s \<longleftrightarrow>
     (\<forall>t<k. valid_threshold h t \<longrightarrow> variance_at h t \<le> maxVariance s) \<and>
     (\<forall>t<k. valid_threshold h t \<longrightarrow> t < threshold s \<longrightarrow> variance_at h t < maxVariance s) \<and>
     ((\<exists>t<k. valid_threshold h t) \<longrightarrow>
        threshold s < k \<and> valid_threshold h (threshold s)
        \<and> maxVariance s = variance_at h (threshold s)) \<and>
     ((\<forall>t<k. \<not> valid_threshold h t) \<longrightarrow> threshold s = 0 \<and> maxVariance s = 0)"

definition otsu_inv :: "nat list \<Rightarrow> nat \<Rightarrow> otsu_state \<Rightarrow> bool" where
  "otsu_inv h k s \<longleftrightarrow>
     wB s = (\<Sum>i<k. h ! i) \<and> sumB s = (\<Sum>i<k. i * h ! i) \<and>
     events s = map (scan_event h) [0..<k] \<and> (\<forall>t<k. \<not> stops_at h t) \<and>
     best_so_far h k s"

definition otsu_final :: "nat list \<Rightarrow> nat \<Rightarrow> otsu_state \<Rightarrow> bool" where
  "otsu_final h m r \<longleftrightarrow>
     events r = map (scan_event h) [0..<m] \<and> (\<forall>t. Suc t < m \<longrightarrow> \<not> stops_at h t) \<and>
     (m < 256 \<longrightarrow> 0 < m \<and> stops_at h (m - 1)) \<and> best_so_far h 256 r"

text \<open>A histogram whose only occupied bins are \<open>a\<close> and \<open>b\<close>.\<close>

definition two_peaks :: "nat \<Rightarrow> nat \<Rightarrow> nat \<Rightarrow> nat \<Rightarrow> nat list" where
  "two_peaks a p b q = (replicate 256 0)[a := p, b := q]"



section \<open>The decode run: what is attempted and what is returned\<close>

lemma firstTruthy_append:
  "firstTruthy (xs @ ys) = (case firstTruthy xs of Some v \<Rightarrow> Some v | None \<Rightarrow> firstTruthy ys)"
  by (induction xs) (auto split: settled.splits option.splits)

lemma firstTruthy_nonempty: "firstTruthy xs = Some v \<Longrightarrow> v \<noteq> []"
  by (induction xs) (auto split: settled.splits option.splits if_splits)

lemma firstTruthy_wrap: "firstTruthy (Fulfilled (firstTruthy xs) # rest) = firstTruthy (xs @ rest)"
  by (cases "firstTruthy xs") (auto simp: firstTruthy_append dest: firstTruthy_nonempty)

lemma firstTruthy_concat:
  "firstTruthy (map (\<lambda>xs. Fulfilled (firstTruthy xs)) xss) = firstTruthy (concat xss)"
proof (induction xss)
  case Nil
  show ?case by simp
next
  case (Cons xs xss)
  have "firstTruthy (map (\<lambda>xs. Fulfilled (firstTruthy xs)) (xs # xss))
        = firstTruthy (xs @ map (\<lambda>xs. Fulfilled (firstTruthy xs)) xss)"
    by (simp only: list.map firstTruthy_wrap)
  also have "\<dots> = firstTruthy (concat (xs # xss))"
    by (simp add: firstTruthy_append Cons.IH split: option.splits)
  finally show ?case .
qed

lemma firstTruthy_skips_rejected:
  "firstTruthy (filter (\<lambda>r. \<forall>e. r \<noteq> Rejected e) rs) = firstTruthy rs"
  by (induction rs) (auto split: settled.splits option.splits)


lemma firstTruthy_none:
  "(\<forall>r \<in> set rs. \<forall>t. r = Fulfilled (Some t) \<longrightarrow> t = []) \<Longrightarrow> firstTruthy rs = None"
  by (induction rs) (auto split: settled.splits option.splits)

lemma try_value:
  "fst (tryDecodeWithProcessing ext img m)
   = Fulfilled (firstTruthy (map outcome_of (snd (tryDecodeWithProcessing ext img m))))"
  by (simp add: tryDecodeWithProcessing_def outcome_of_def Let_def split: sum.splits)

lemma try_calls:
  "snd (tryDecodeWithProcessing ext img m)
   = (case preprocess ext m img of
        Inl e \<Rightarrow> []
      | Inr p \<Rightarrow> [(m, Hybrid, decodeWithBinarizer ext p Hybrid),
                  (m, Global, decodeWithBinarizer ext p Global)])"
  by (simp add: tryDecodeWithProcessing_def Let_def split: sum.splits)

lemma run_attempts:
  assumes "Jimp_read ext bytes = Inr img"
  shows "attempts (decodeQrFromBuffer ext env bytes)
         = concat (map (\<lambda>m. snd (tryDecodeWithProcessing ext img m)) methods)"
  using assms by (simp add: decodeQrFromBuffer_def Let_def comp_def split: option.splits)

lemma run_returned:
  assumes "Jimp_read ext bytes = Inr img"
  shows "returned (decodeQrFromBuffer ext env bytes)
         = Inr (firstTruthy (map outcome_of (attempts (decodeQrFromBuffer ext env bytes))))"
proof -
  let ?run = "tryDecodeWithProcessing ext img"
  have "map fst (map ?run methods)
        = map (\<lambda>xs. Fulfilled (firstTruthy xs)) (map (\<lambda>m. map outcome_of (snd (?run m))) methods)"
    by (simp add: comp_def try_value [symmetric])
  then have "firstTruthy (map fst (map ?run methods))
        = firstTruthy (concat (map (\<lambda>m. map outcome_of (snd (?run m))) methods))"
    by (simp only: firstTruthy_concat)
  also have "\<dots> = firstTruthy (map outcome_of (concat (map (\<lambda>m. snd (?run m)) methods)))"
    by (simp add: map_concat comp_def)
  finally have key: "firstTruthy (map fst (map ?run methods))
        = firstTruthy (map outcome_of (attempts (decodeQrFromBuffer ext env bytes)))"
    by (simp only: run_attempts [OF assms])
  show ?thesis
    using assms key
    by (simp add: decodeQrFromBuffer_def Let_def split: option.splits)
qed


lemma calls_order:
  "map pair_of (concat (map (\<lambda>m. snd (tryDecodeWithProcessing ext img m)) ms))
   = filter (\<lambda>p. \<not> isl (preprocess ext (fst p) img))
       (concat (map (\<lambda>m. map (\<lambda>b. (m, b)) [Hybrid, Global]) ms))"
  by (induction ms) (auto simp: try_calls pair_of_def split: sum.splits)

lemma run_order:
  assumes "Jimp_read ext bytes = Inr img"
  shows "map pair_of (attempts (decodeQrFromBuffer ext env bytes))
         = filter (\<lambda>p. \<not> isl (preprocess ext (fst p) img)) priority_order"
  by (simp only: run_attempts [OF assms] calls_order priority_order_def)

lemma priority_order_length: "length priority_order = 14"
  by (simp add: priority_order_def methods_def)

lemma methods_complete: "m \<in> set methods"
  by (cases m) (simp_all add: methods_def)

lemma attempt_made:
  assumes "Jimp_read ext bytes = Inr img" and "preprocess ext m img = Inr p"
  shows "(m, b, decodeWithBinarizer ext p b) \<in> set (attempts (decodeQrFromBuffer ext env bytes))"
proof -
  have "(m, b, decodeWithBinarizer ext p b) \<in> set (snd (tryDecodeWithProcessing ext img m))"
    using assms(2) by (cases b) (simp_all add: try_calls)
  then show ?thesis
    using methods_complete [of m] by (auto simp: run_attempts [OF assms(1)])
qed

lemma stub_preprocess: "\<not> isl (preprocess (stub_collaborators reader) m img)"
  by (cases m) (simp_all add: stub_collaborators_def andThen_def Let_def)

lemma stub_attempts:
  "attempts (decodeQrFromBuffer (stub_collaborators reader) env bytes)
   = concat (map (\<lambda>m. case preprocess (stub_collaborators reader) m pixel_image of
                          Inl e \<Rightarrow> []
                        | Inr p \<Rightarrow> [(m, Hybrid, decodeWithBinarizer (stub_collaborators reader) p Hybrid),
                                    (m, Global, decodeWithBinarizer (stub_collaborators reader) p Global)])
                  methods)"
proof -
  have "Jimp_read (stub_collaborators reader) bytes = Inr pixel_image"
    by (simp add: stub_collaborators_def)
  from run_attempts [OF this] show ?thesis
    by (simp only: try_calls)
qed


lemma decodeWithBinarizer_unexpected:
  assumes "reader_decode ext b (source_of p) = Inl e" and "\<not> expected_failure e"
  shows "decodeWithBinarizer ext p b = Rejected e"
  using assms
  by (cases e) (simp_all add: decodeWithBinarizer_def source_of_def expected_failure_def)

lemma decodeWithBinarizer_expected:
  assumes "reader_decode ext b (source_of p) = Inl e" and "expected_failure e"
  shows "decodeWithBinarizer ext p b = Fulfilled None"
  using assms
  by (cases e) (simp_all add: decodeWithBinarizer_def source_of_def expected_failure_def)

lemma decodeWithBinarizer_text:
  assumes "reader_decode ext b (source_of p) = Inr t"
  shows "decodeWithBinarizer ext p b = Fulfilled (Some t)"
  using assms by (simp add: decodeWithBinarizer_def source_of_def)

text \<open>
  Claim C1, as the code has it. An error of the decoder other than the three expected ones
  rejects the promise of that one \<^verbatim>\<open>decodeWithBinarizer\<close> call and goes no further:
  \<^verbatim>\<open>Promise.allSettled\<close> records the rejection, the loop over the results passes it over,
  every pair of the fixed order whose transform did not throw is still attempted, and
  \<^verbatim>\<open>decodeQrFromBuffer\<close> returns the first non-empty text of the fulfilled attempts, or
  \<^verbatim>\<open>null\<close>.
\<close>

theorem unexpected_error_absorbed:
  assumes "Jimp_read ext bytes = Inr img"
      and "preprocess ext m img = Inr p"
      and "reader_decode ext b (source_of p) = Inl e"
      and "\<not> expected_failure e"
  shows "(m, b, Rejected e) \<in> set (attempts (decodeQrFromBuffer ext env bytes))
       \<and> map pair_of (attempts (decodeQrFromBuffer ext env bytes))
           = filter (\<lambda>p. \<not> isl (preprocess ext (fst p) img)) priority_order
       \<and> returned (decodeQrFromBuffer ext env bytes)
           = Inr (firstTruthy (filter (\<lambda>r. \<forall>e'. r \<noteq> Rejected e')
                    (map outcome_of (attempts (decodeQrFromBuffer ext env bytes)))))"
proof -
  have "(m, b, decodeWithBinarizer ext p b) \<in> set (attempts (decodeQrFromBuffer ext env bytes))"
    by (rule attempt_made [OF assms(1,2)])
  then have "(m, b, Rejected e) \<in> set (attempts (decodeQrFromBuffer ext env bytes))"
    by (simp only: decodeWithBinarizer_unexpected [OF assms(3,4)])
  then show ?thesis
    by (simp add: run_order [OF assms(1)] run_returned [OF assms(1)] firstTruthy_skips_rejected)
qed

lemma crashing_run:
  "attempts (decodeQrFromBuffer (stub_collaborators crashing_reader) quiet_environment [])
   = map (\<lambda>p. (fst p, snd p, Rejected (OtherError ''boom''))) priority_order"
  by (subst stub_attempts)
     (simp add: priority_order_def methods_def decodeWithBinarizer_def
        stub_collaborators_def crashing_reader_def andThen_def Let_def)

theorem unexpected_error_absorbed_witness:
  "Jimp_read (stub_collaborators crashing_reader) [] = Inr pixel_image
   \<and> preprocess (stub_collaborators crashing_reader) Original pixel_image = Inr pixel_image
   \<and> reader_decode (stub_collaborators crashing_reader) Hybrid (source_of pixel_image)
       = Inl (OtherError ''boom'')
   \<and> \<not> expected_failure (OtherError ''boom'')
   \<and> (Original, Hybrid, Rejected (OtherError ''boom''))
       \<in> set (attempts (decodeQrFromBuffer (stub_collaborators crashing_reader) quiet_environment []))
   \<and> returned (decodeQrFromBuffer (stub_collaborators crashing_reader) quiet_environment [])
       = Inr None"
proof -
  have h1: "Jimp_read (stub_collaborators crashing_reader) [] = Inr pixel_image"
    by (simp add: stub_collaborators_def)
  have h2: "preprocess (stub_collaborators crashing_reader) Original pixel_image = Inr pixel_image"
    by simp
  have h3: "reader_decode (stub_collaborators crashing_reader) Hybrid (source_of pixel_image)
       = Inl (OtherError ''boom'')"
    by (simp add: stub_collaborators_def crashing_reader_def)
  have h4: "\<not> expected_failure (OtherError ''boom'')"
    by (simp add: expected_failure_def)
  from unexpected_error_absorbed [OF h1 h2 h3 h4, of quiet_environment] h1 h2 h3 h4
  show ?thesis
    by (simp add: crashing_run outcome_of_def priority_order_def methods_def)
qed

text \<open>
  Claim C1 as stated fails: with a decoder that throws an unexpected error on every
  attempt, all fourteen attempts are made and the run returns \<^verbatim>\<open>null\<close>, not the error.
\<close>

theorem unexpected_error_not_propagated:
  "reader_decode (stub_collaborators crashing_reader) Hybrid (source_of pixel_image)
     = Inl (OtherError ''boom'')
   \<and> returned (decodeQrFromBuffer (stub_collaborators crashing_reader) quiet_environment [])
     = Inr None
   \<and> length (attempts (decodeQrFromBuffer (stub_collaborators crashing_reader) quiet_environment []))
     = 14"
proof -
  have h1: "Jimp_read (stub_collaborators crashing_reader) [] = Inr pixel_image"
    by (simp add: stub_collaborators_def)
  have h2: "reader_decode (stub_collaborators crashing_reader) Hybrid (source_of pixel_image)
     = Inl (OtherError ''boom'')"
    by (simp add: stub_collaborators_def crashing_reader_def)
  have h3: "returned (decodeQrFromBuffer (stub_collaborators crashing_reader) quiet_environment [])
     = Inr None"
    by (simp add: run_returned [OF h1] crashing_run outcome_of_def priority_order_def methods_def)
  have h4: "length (attempts (decodeQrFromBuffer (stub_collaborators crashing_reader)
              quiet_environment [])) = 14"
    by (simp add: crashing_run priority_order_length)
  from h2 h3 h4 show ?thesis by simp
qed



lemma run_order_all:
  assumes "Jimp_read ext bytes = Inr img" and "\<forall>m. \<not> isl (preprocess ext m img)"
  shows "map pair_of (attempts (decodeQrFromBuffer ext env bytes)) = priority_order"
  using assms(2) by (simp add: run_order [OF assms(1)])

text \<open>
  Claim C2, as the code has it. Nothing is short-circuited in the evaluation: the seven
  calls of \<^verbatim>\<open>tryDecodeWithProcessing\<close> and, in each, the two calls of
  \<^verbatim>\<open>decodeWithBinarizer\<close> are started before any result is looked at, so every pair of
  the fixed order whose transform did not throw is attempted, whatever the earlier
  attempts gave (all fourteen when no transform throws). Only the selection is
  short-circuited: one value is returned, the first non-empty text in the order.
\<close>

theorem all_pairs_attempted:
  assumes "Jimp_read ext bytes = Inr img"
  shows "map pair_of (attempts (decodeQrFromBuffer ext env bytes))
           = filter (\<lambda>p. \<not> isl (preprocess ext (fst p) img)) priority_order
       \<and> ((\<forall>m. \<not> isl (preprocess ext m img)) \<longrightarrow>
            map pair_of (attempts (decodeQrFromBuffer ext env bytes)) = priority_order
            \<and> length (attempts (decodeQrFromBuffer ext env bytes)) = 14)
       \<and> returned (decodeQrFromBuffer ext env bytes)
           = Inr (firstTruthy (map outcome_of (attempts (decodeQrFromBuffer ext env bytes))))"
proof -
  have "length (attempts (decodeQrFromBuffer ext env bytes)) = 14"
    if "\<forall>m. \<not> isl (preprocess ext m img)"
  proof -
    have "length (map pair_of (attempts (decodeQrFromBuffer ext env bytes))) = 14"
      by (simp only: run_order_all [OF assms that] priority_order_length)
    then show ?thesis by simp
  qed
  then show ?thesis
    using run_order [OF assms] run_order_all [OF assms] run_returned [OF assms] by blast
qed

lemma eager_run:
  "attempts (decodeQrFromBuffer (stub_collaborators eager_reader) quiet_environment [])
   = map (\<lambda>p. (fst p, snd p, Fulfilled (Some ''A''))) priority_order"
  by (subst stub_attempts)
     (simp add: priority_order_def methods_def decodeWithBinarizer_def
        stub_collaborators_def eager_reader_def andThen_def Let_def)

theorem all_pairs_attempted_witness:
  "Jimp_read (stub_collaborators eager_reader) [] = Inr pixel_image
   \<and> (\<forall>m. \<not> isl (preprocess (stub_collaborators eager_reader) m pixel_image))
   \<and> map pair_of (attempts (decodeQrFromBuffer (stub_collaborators eager_reader) quiet_environment []))
       = priority_order
   \<and> length (attempts (decodeQrFromBuffer (stub_collaborators eager_reader) quiet_environment []))
       = 14
   \<and> returned (decodeQrFromBuffer (stub_collaborators eager_reader) quiet_environment [])
       = Inr (Some ''A'')"
proof -
  have h1: "Jimp_read (stub_collaborators eager_reader) [] = Inr pixel_image"
    by (simp add: stub_collaborators_def)
  have h2: "\<forall>m. \<not> isl (preprocess (stub_collaborators eager_reader) m pixel_image)"
    by (simp add: stub_preprocess)
  have h3: "firstTruthy (map outcome_of
              (attempts (decodeQrFromBuffer (stub_collaborators eager_reader) quiet_environment [])))
            = Some ''A''"
    by (simp add: eager_run outcome_of_def priority_order_def methods_def)
  from all_pairs_attempted [OF h1, of quiet_environment] h1 h2 h3
  show ?thesis by simp
qed

text \<open>
  Claim C2 as stated fails: with a decoder that succeeds at once, the first attempt
  (original, hybrid) succeeds and the thirteen later pairs are evaluated all the same.
\<close>

theorem later_pairs_still_evaluated:
  "attempts (decodeQrFromBuffer (stub_collaborators eager_reader) quiet_environment [])
   = [(Original, Hybrid, Fulfilled (Some ''A'')), (Original, Global, Fulfilled (Some ''A'')),
      (Grayscale, Hybrid, Fulfilled (Some ''A'')), (Grayscale, Global, Fulfilled (Some ''A'')),
      (Contrast, Hybrid, Fulfilled (Some ''A'')), (Contrast, Global, Fulfilled (Some ''A'')),
      (Threshold, Hybrid, Fulfilled (Some ''A'')), (Threshold, Global, Fulfilled (Some ''A'')),
      (Resize, Hybrid, Fulfilled (Some ''A'')), (Resize, Global, Fulfilled (Some ''A'')),
      (AggressiveThreshold, Hybrid, Fulfilled (Some ''A'')),
      (AggressiveThreshold, Global, Fulfilled (Some ''A'')),
      (EdgeEnhance, Hybrid, Fulfilled (Some ''A'')), (EdgeEnhance, Global, Fulfilled (Some ''A''))]"
  by (simp add: eager_run priority_order_def methods_def)







lemma calls_all_null:
  assumes "\<forall>m. \<exists>p. preprocess ext m img = Inr p
              \<and> (\<forall>b. \<exists>e. reader_decode ext b (source_of p) = Inl e \<and> expected_failure e)"
  shows "concat (map (\<lambda>m. snd (tryDecodeWithProcessing ext img m)) ms)
         = map (\<lambda>p. (fst p, snd p, Fulfilled None))
             (concat (map (\<lambda>m. map (\<lambda>b. (m, b)) [Hybrid, Global]) ms))"
proof (induction ms)
  case Nil
  show ?case by simp
next
  case (Cons m ms)
  from assms obtain p where p: "preprocess ext m img = Inr p"
    and e: "\<forall>b. \<exists>e. reader_decode ext b (source_of p) = Inl e \<and> expected_failure e"
    by blast
  have "decodeWithBinarizer ext p b = Fulfilled None" for b
    using e decodeWithBinarizer_expected by blast
  then have "snd (tryDecodeWithProcessing ext img m)
             = [(m, Hybrid, Fulfilled None), (m, Global, Fulfilled None)]"
    by (simp add: try_calls p)
  with Cons.IH show ?case by simp
qed

text \<open>
  Claim C9. When the image loads, no transform throws and each of the fourteen attempts
  fails with \<^verbatim>\<open>NotFoundException\<close>, \<^verbatim>\<open>ChecksumException\<close> or \<^verbatim>\<open>FormatException\<close>, all fourteen
  attempts are made, in the fixed order and each settling to \<^verbatim>\<open>null\<close>; the service returns
  \<^verbatim>\<open>null\<close> (no rejection) and the handler answers \<^verbatim>\<open>success: false, text: null\<close> with the
  message that no QR code was found.
\<close>

theorem exhaustion_returns_not_found:
  assumes "Jimp_read ext (buffer f) = Inr img"
      and "\<forall>m. \<exists>p. preprocess ext m img = Inr p
              \<and> (\<forall>b. \<exists>e. reader_decode ext b (source_of p) = Inl e \<and> expected_failure e)"
  shows "returned (decodeQrFromBuffer ext env (buffer f)) = Inr None
       \<and> attempts (decodeQrFromBuffer ext env (buffer f))
           = map (\<lambda>p. (fst p, snd p, Fulfilled None)) priority_order
       \<and> length (attempts (decodeQrFromBuffer ext env (buffer f))) = 14
       \<and> decodeQr ext env (Some f)
           = Inr \<lparr>success = False, decoded_text = None,
                  error_message = Some ''No QR code found in the image'',
                  metadata = (originalname f, file_size f, mimetype f)\<rparr>"
proof -
  have att: "attempts (decodeQrFromBuffer ext env (buffer f))
             = map (\<lambda>p. (fst p, snd p, Fulfilled None)) priority_order"
    by (simp only: run_attempts [OF assms(1)] calls_all_null [OF assms(2)] priority_order_def)
  have "firstTruthy (map outcome_of (attempts (decodeQrFromBuffer ext env (buffer f)))) = None"
    by (rule firstTruthy_none) (auto simp: att outcome_of_def)
  then have ret: "returned (decodeQrFromBuffer ext env (buffer f)) = Inr None"
    by (simp add: run_returned [OF assms(1)])
  have len: "length (attempts (decodeQrFromBuffer ext env (buffer f))) = 14"
    by (simp add: att priority_order_length)
  have "decodeQr ext env (Some f)
           = Inr \<lparr>success = False, decoded_text = None,
                  error_message = Some ''No QR code found in the image'',
                  metadata = (originalname f, file_size f, mimetype f)\<rparr>"
    by (simp add: decodeQr_def ret)
  with ret att len show ?thesis by simp
qed

theorem exhaustion_returns_not_found_witness:
  "Jimp_read (stub_collaborators blind_reader) (buffer empty_upload) = Inr pixel_image
   \<and> (\<forall>m. \<exists>p. preprocess (stub_collaborators blind_reader) m pixel_image = Inr p
          \<and> (\<forall>b. \<exists>e. reader_decode (stub_collaborators blind_reader) b (source_of p) = Inl e
                       \<and> expected_failure e))
   \<and> returned (decodeQrFromBuffer (stub_collaborators blind_reader) quiet_environment
         (buffer empty_upload)) = Inr None
   \<and> length (attempts (decodeQrFromBuffer (stub_collaborators blind_reader) quiet_environment
         (buffer empty_upload))) = 14
   \<and> decodeQr (stub_collaborators blind_reader) quiet_environment (Some empty_upload)
       = Inr \<lparr>success = False, decoded_text = None,
              error_message = Some ''No QR code found in the image'',
              metadata = (''blank.png'', 0, ''image/png'')\<rparr>"
proof -
  have h1: "Jimp_read (stub_collaborators blind_reader) (buffer empty_upload) = Inr pixel_image"
    by (simp add: stub_collaborators_def)
  have r: "reader_decode (stub_collaborators blind_reader) b s = Inl NotFoundException" for b s
    by (simp add: stub_collaborators_def blind_reader_def)
  have h2: "\<forall>m. \<exists>p. preprocess (stub_collaborators blind_reader) m pixel_image = Inr p
          \<and> (\<forall>b. \<exists>e. reader_decode (stub_collaborators blind_reader) b (source_of p) = Inl e
                       \<and> expected_failure e)"
  proof
    fix m
    from stub_preprocess [of blind_reader m pixel_image]
    obtain p where "preprocess (stub_collaborators blind_reader) m pixel_image = Inr p"
      by (cases "preprocess (stub_collaborators blind_reader) m pixel_image") auto
    then show "\<exists>p. preprocess (stub_collaborators blind_reader) m pixel_image = Inr p
          \<and> (\<forall>b. \<exists>e. reader_decode (stub_collaborators blind_reader) b (source_of p) = Inl e
                       \<and> expected_failure e)"
      by (auto simp: r expected_failure_def)
  qed
  from exhaustion_returns_not_found [OF h1 h2, of quiet_environment] h1 h2
  show ?thesis by (simp add: empty_upload_def priority_order_length)
qed

text \<open>
  Claim C8, as the code has it. The guard of the resize transform is on the smaller
  dimension: the image is passed through unchanged whenever \<open>min width height \<le> 500\<close>
  (in particular whenever the larger dimension is at most 500), and exactly when both
  dimensions exceed 500 it is resized to 500 by 500, then greyscaled and normalised.
\<close>

theorem resize_guard_is_min:
  "(min (width img) (height img) \<le> 500 \<longrightarrow>
      preprocess ext Resize img = Inr img
      \<and> snd (tryDecodeWithProcessing ext img Resize)
          = [(Resize, Hybrid, decodeWithBinarizer ext img Hybrid),
             (Resize, Global, decodeWithBinarizer ext img Global)])
   \<and> (max (width img) (height img) \<le> 500 \<longrightarrow> preprocess ext Resize img = Inr img)
   \<and> (500 < min (width img) (height img) \<longrightarrow>
        preprocess ext Resize img
        = andThen (resize ext 500 500 img) (\<lambda>a.
          andThen (greyscale ext a) (\<lambda>b. normalize_image ext b)))
   \<and> (preprocess ext Resize img \<noteq> Inr img \<longrightarrow> 500 < width img \<and> 500 < height img)"
proof -
  have small: "preprocess ext Resize img = Inr img" if "min (width img) (height img) \<le> 500"
    using that by (auto simp: Let_def)
  have calls: "snd (tryDecodeWithProcessing ext img Resize)
          = [(Resize, Hybrid, decodeWithBinarizer ext img Hybrid),
             (Resize, Global, decodeWithBinarizer ext img Global)]"
    if "min (width img) (height img) \<le> 500"
    by (simp only: try_calls small [OF that] sum.case)
  have larger: "preprocess ext Resize img = Inr img" if "max (width img) (height img) \<le> 500"
    using that by (intro small) auto
  have big: "preprocess ext Resize img
        = andThen (resize ext 500 500 img) (\<lambda>a.
          andThen (greyscale ext a) (\<lambda>b. normalize_image ext b))"
    if "500 < min (width img) (height img)"
    using that by (auto simp: Let_def)
  have changed: "500 < width img \<and> 500 < height img" if "preprocess ext Resize img \<noteq> Inr img"
  proof (rule ccontr)
    assume "\<not> (500 < width img \<and> 500 < height img)"
    then have "min (width img) (height img) \<le> 500" by auto
    from small [OF this] that show False by simp
  qed
  from small calls larger big changed show ?thesis by blast
qed

theorem resize_guard_is_min_witness:
  "max (width pixel_image) (height pixel_image) \<le> 500
   \<and> min (width pixel_image) (height pixel_image) \<le> 500
   \<and> preprocess (stub_collaborators blind_reader) Resize pixel_image = Inr pixel_image
   \<and> 500 < min (width \<lparr>width = 600, height = 501, data = replicate (4 * (600 * 501)) 0\<rparr>)
               (height \<lparr>width = 600, height = 501, data = replicate (4 * (600 * 501)) 0\<rparr>)
   \<and> preprocess (stub_collaborators blind_reader) Resize
         \<lparr>width = 600, height = 501, data = replicate (4 * (600 * 501)) 0\<rparr>
       = Inr \<lparr>width = 500, height = 500, data = replicate (4 * (500 * 500)) 0\<rparr>"
  using resize_guard_is_min [of pixel_image "stub_collaborators blind_reader"]
        resize_guard_is_min [of "\<lparr>width = 600, height = 501,
                                   data = replicate (4 * (600 * 501)) 0\<rparr>"
                                "stub_collaborators blind_reader"]
  by (simp add: pixel_image_def stub_collaborators_def andThen_def)

text \<open>
  Claim C8 as stated fails: an image of 600 by 400 has its larger dimension above 500
  and is passed through unchanged, so what is decoded does not fit within 500 by 500.
\<close>

theorem wide_image_not_resized:
  "500 < max (width wide_image) (height wide_image)
   \<and> preprocess (stub_collaborators blind_reader) Resize wide_image = Inr wide_image
   \<and> width wide_image = 600 \<and> height wide_image = 400
   \<and> resize (stub_collaborators blind_reader) 500 500 wide_image \<noteq> Inr wide_image"
  by (simp add: wide_image_def stub_collaborators_def)


section \<open>Rounding to a double\<close>

text \<open>
  \<open>fl\<close> is monotone, exact on every value with a significand below \<open>2 ^ 53\<close>, commutes
  with scaling by a power of two, and has a relative error of at most \<open>2 ^ - 53\<close>.
\<close>

lemma pow2_powi: "pow2 e = 2 powi e"
  by (simp add: pow2_def power_int_def inverse_eq_divide power_one_over)

lemma pow2_pos: "0 < pow2 e"
  by (simp add: pow2_powi)

lemma pow2_add: "pow2 (a + b) = pow2 a * pow2 b"
  by (simp add: pow2_powi power_int_add)

lemma pow2_mono: "a \<le> b \<Longrightarrow> pow2 a \<le> pow2 b"
  by (simp add: pow2_powi power_int_increasing)

lemma pow2_nat: "pow2 (int n) = 2 ^ n"
  by (simp add: pow2_def)

lemma pow2_neg_nat: "pow2 (- int n) = 1 / 2 ^ n"
  by (simp add: pow2_powi power_int_minus_divide)

lemma rat_pow2_le_nat: "2 ^ k \<le> n \<Longrightarrow> (2::rat) ^ k \<le> of_nat n"
  by (metis of_nat_le_iff of_nat_numeral of_nat_power)

lemma rat_nat_le_pow2: "n \<le> 2 ^ k \<Longrightarrow> (of_nat n :: rat) \<le> 2 ^ k"
  by (metis of_nat_le_iff of_nat_numeral of_nat_power)

lemma log2floor_bounds: "0 < n \<Longrightarrow> 2 ^ log2floor n \<le> n \<and> n < 2 ^ Suc (log2floor n)"
proof (induction n rule: log2floor.induct)
  case (1 n)
  show ?case
  proof (cases "n < 2")
    case True
    with "1.prems" have "n = 1" by simp
    then show ?thesis by (simp add: log2floor.simps)
  next
    case False
    then have pos: "0 < n div 2" by simp
    from "1.IH" [OF False pos]
    have lo: "2 ^ log2floor (n div 2) \<le> n div 2" and hi: "n div 2 < 2 ^ Suc (log2floor (n div 2))"
      by simp_all
    have eq: "log2floor n = Suc (log2floor (n div 2))"
      using False by (subst log2floor.simps) simp
    from lo have "2 * 2 ^ log2floor (n div 2) \<le> n" by linarith
    moreover from hi have "n < 2 * 2 ^ Suc (log2floor (n div 2))" by linarith
    ultimately show ?thesis by (simp add: eq)
  qed
qed

lemma log2ceil_bounds:
  assumes "2 \<le> n"
  shows "n \<le> 2 ^ log2ceil n" and "2 ^ (log2ceil n - 1) < n" and "1 \<le> log2ceil n"
proof -
  have pos: "0 < n - 1" using assms by simp
  have eq: "log2ceil n = Suc (log2floor (n - 1))"
    using assms by (simp add: log2ceil_def)
  from log2floor_bounds [OF pos]
  have lo: "2 ^ log2floor (n - 1) \<le> n - 1" and hi: "n - 1 < 2 ^ Suc (log2floor (n - 1))"
    by simp_all
  from hi show "n \<le> 2 ^ log2ceil n" by (simp add: eq)
  from lo assms show "2 ^ (log2ceil n - 1) < n" by (simp add: eq)
  show "1 \<le> log2ceil n" by (simp add: eq)
qed

lemma binade_bounds:
  assumes "0 < x"
  shows "pow2 (binade x) \<le> x \<and> x < pow2 (binade x + 1)"
proof (cases "1 \<le> x")
  case True
  define n where "n = nat \<lfloor>x\<rfloor>"
  have n: "0 < n" "of_nat n \<le> x" "x < of_nat n + 1"
    using True by (simp_all add: n_def) linarith+
  have e: "binade x = int (log2floor n)"
    using True by (simp add: binade_def n_def)
  from log2floor_bounds [OF n(1)]
  have lo: "2 ^ log2floor n \<le> n" and hi: "n < 2 ^ Suc (log2floor n)" by simp_all
  have "(2::rat) ^ log2floor n \<le> of_nat n"
    using lo by (rule rat_pow2_le_nat)
  with n(2) have "(2::rat) ^ log2floor n \<le> x" by linarith
  then have A: "pow2 (binade x) \<le> x"
    by (simp only: e pow2_nat)
  from hi have "n + 1 \<le> 2 ^ Suc (log2floor n)" by simp
  then have "(of_nat (n + 1) :: rat) \<le> 2 ^ Suc (log2floor n)"
    by (rule rat_nat_le_pow2)
  then have "(of_nat n :: rat) + 1 \<le> 2 ^ Suc (log2floor n)"
    by (simp only: of_nat_add of_nat_1)
  with n(3) have "x < 2 ^ Suc (log2floor n)" by linarith
  moreover have "pow2 (binade x + 1) = 2 ^ Suc (log2floor n)"
    using pow2_nat [of "Suc (log2floor n)"] by (simp add: e add.commute)
  ultimately show ?thesis using A by simp
next
  case False
  define y where "y = 1 / x"
  define n where "n = nat \<lceil>y\<rceil>"
  have y: "1 < y" using assms False by (simp add: y_def)
  have n: "2 \<le> n" "y \<le> of_nat n" "of_nat n - 1 < y"
    using y by (simp_all add: n_def) linarith+
  have e: "binade x = - int (log2ceil n)"
    using False by (simp add: binade_def n_def y_def)
  note b = log2ceil_bounds [OF n(1)]
  have "(of_nat n :: rat) \<le> 2 ^ log2ceil n"
    using b(1) by (rule rat_nat_le_pow2)
  with n(2) have "y \<le> 2 ^ log2ceil n" by linarith
  then have "1 / 2 ^ log2ceil n \<le> x"
    using assms by (simp add: y_def field_simps)
  then have A: "pow2 (binade x) \<le> x"
    by (simp add: e pow2_neg_nat)
  from b(2) have "2 ^ (log2ceil n - 1) \<le> n - 1" by simp
  then have "(2::rat) ^ (log2ceil n - 1) \<le> of_nat (n - 1)"
    by (rule rat_pow2_le_nat)
  also have "(of_nat (n - 1) :: rat) = of_nat n - 1"
    using n(1) by (simp add: of_nat_diff)
  finally have "(2::rat) ^ (log2ceil n - 1) \<le> of_nat n - 1" .
  with n(3) have "2 ^ (log2ceil n - 1) < y" by linarith
  then have "x < 1 / 2 ^ (log2ceil n - 1)"
    using assms by (simp add: y_def field_simps)
  moreover have "binade x + 1 = - int (log2ceil n - 1)"
    using b(3) by (simp add: e)
  ultimately have "x < pow2 (binade x + 1)"
    by (simp add: pow2_neg_nat)
  with A show ?thesis by simp
qed

lemma binade_unique:
  assumes "pow2 e \<le> x" and "x < pow2 (e + 1)"
  shows "binade x = e"
proof -
  have "0 < x" using assms(1) pow2_pos [of e] by linarith
  from binade_bounds [OF this]
  have lo: "pow2 (binade x) \<le> x" and hi: "x < pow2 (binade x + 1)" by simp_all
  have "\<not> binade x < e"
  proof
    assume "binade x < e"
    then have "pow2 (binade x + 1) \<le> pow2 e" by (simp add: pow2_mono)
    with hi assms(1) show False by linarith
  qed
  moreover have "\<not> e < binade x"
  proof
    assume "e < binade x"
    then have "pow2 (e + 1) \<le> pow2 (binade x)" by (simp add: pow2_mono)
    with lo assms(2) show False by linarith
  qed
  ultimately show ?thesis by simp
qed

lemma binade_mono:
  assumes "0 < x" and "x \<le> y"
  shows "binade x \<le> binade y"
proof (rule ccontr)
  assume "\<not> binade x \<le> binade y"
  then have "binade y + 1 \<le> binade x" by simp
  then have "pow2 (binade y + 1) \<le> pow2 (binade x)" by (rule pow2_mono)
  moreover have "0 < y" using assms by simp
  ultimately show False
    using binade_bounds [OF assms(1)] binade_bounds [OF \<open>0 < y\<close>] assms(2) by linarith
qed

lemma pow2_shift: "pow2 (e + int k) = 2 ^ k * pow2 e"
  using pow2_add [of e "int k"] by (simp add: pow2_nat mult.commute)

lemma pow2_lo52: "pow2 e = 2 ^ 52 * pow2 (e - 52)"
  using pow2_shift [of "e - 52" 52] by simp

lemma pow2_hi53: "pow2 (e + 1) = 2 ^ 53 * pow2 (e - 52)"
  using pow2_shift [of "e - 52" 53] by (simp add: add.commute)

lemma rte_int: "roundTiesToEven (of_int k) = k"
  by (simp add: roundTiesToEven_def)

lemma rte_cases:
  "roundTiesToEven q = \<lfloor>q\<rfloor> \<or> roundTiesToEven q = \<lfloor>q\<rfloor> + 1"
  by (simp add: roundTiesToEven_def Let_def)

lemma rte_error: "\<bar>of_int (roundTiesToEven q) - q\<bar> \<le> 1 / 2"
proof -
  have "of_int \<lfloor>q\<rfloor> \<le> q" "q < of_int \<lfloor>q\<rfloor> + 1" by linarith+
  then show ?thesis
    by (auto simp: roundTiesToEven_def Let_def abs_le_iff)
qed

lemma rte_mono:
  assumes "q \<le> q'"
  shows "roundTiesToEven q \<le> roundTiesToEven q'"
proof (cases "\<lfloor>q\<rfloor> = \<lfloor>q'\<rfloor>")
  case True
  with assms have "q - of_int \<lfloor>q\<rfloor> \<le> q' - of_int \<lfloor>q'\<rfloor>" by simp
  then show ?thesis
    using True by (auto simp: roundTiesToEven_def Let_def)
next
  case False
  with assms have "\<lfloor>q\<rfloor> < \<lfloor>q'\<rfloor>"
    using floor_mono [OF assms] by linarith
  moreover have "roundTiesToEven q \<le> \<lfloor>q\<rfloor> + 1" using rte_cases [of q] by auto
  moreover have "\<lfloor>q'\<rfloor> \<le> roundTiesToEven q'" using rte_cases [of q'] by auto
  ultimately show ?thesis by linarith
qed

lemma fl_zero: "fl 0 = 0"
  by (simp add: fl_def)

lemma fl_pos:
  "0 < x \<Longrightarrow> fl x = of_int (roundTiesToEven (x / pow2 (binade x - 52))) * pow2 (binade x - 52)"
  by (simp add: fl_def Let_def)

lemma fl_minus: "fl (- x) = - fl x"
  by (simp add: fl_def Let_def)

lemma fl_bounds:
  assumes "0 < x"
  shows "pow2 (binade x) \<le> fl x" and "fl x \<le> pow2 (binade x + 1)"
proof -
  define u where "u = pow2 (binade x - 52)"
  have u: "0 < u" by (simp add: u_def pow2_pos)
  have lo: "pow2 (binade x) = of_int (2 ^ 52) * u"
    using pow2_lo52 [of "binade x"] by (simp add: u_def)
  have hi: "pow2 (binade x + 1) = of_int (2 ^ 53) * u"
    using pow2_hi53 [of "binade x"] by (simp add: u_def)
  from binade_bounds [OF assms]
  have "of_int (2 ^ 52) * u \<le> x" "x \<le> of_int (2 ^ 53) * u"
    by (simp_all add: lo hi)
  then have q: "of_int (2 ^ 52) \<le> x / u" "x / u \<le> of_int (2 ^ 53)"
    using u by (simp_all add: field_simps)
  from rte_mono [OF q(1)] rte_mono [OF q(2)] have r: "2 ^ 52 \<le> roundTiesToEven (x / u)" "roundTiesToEven (x / u) \<le> 2 ^ 53"
    by (simp_all only: rte_int)
  have "(of_int (2 ^ 52) :: rat) \<le> of_int (roundTiesToEven (x / u))"
    using r(1) by (simp only: of_int_le_iff)
  then have "of_int (2 ^ 52) * u \<le> of_int (roundTiesToEven (x / u)) * u"
    using u by (simp only: mult_le_cancel_right_pos)
  then show "pow2 (binade x) \<le> fl x"
    by (simp only: lo fl_pos [OF assms] u_def)
  have "(of_int (roundTiesToEven (x / u)) :: rat) \<le> of_int (2 ^ 53)"
    using r(2) by (simp only: of_int_le_iff)
  then have "of_int (roundTiesToEven (x / u)) * u \<le> of_int (2 ^ 53) * u"
    using u by (simp only: mult_le_cancel_right_pos)
  then show "fl x \<le> pow2 (binade x + 1)"
    by (simp only: hi fl_pos [OF assms] u_def)
qed

lemma fl_pos_pos: "0 < x \<Longrightarrow> 0 < fl x"
  using fl_bounds(1) [of x] pow2_pos [of "binade x"] by linarith

lemma fl_mono_pos:
  assumes "0 < x" and "x \<le> y"
  shows "fl x \<le> fl y"
proof (cases "binade x = binade y")
  case True
  have y: "0 < y" using assms by simp
  define u where "u = pow2 (binade x - 52)"
  have u: "0 < u" by (simp add: u_def pow2_pos)
  have "x / u \<le> y / u" using assms(2) u by (simp add: divide_right_mono)
  then have "roundTiesToEven (x / u) \<le> roundTiesToEven (y / u)" by (rule rte_mono)
  then have "(of_int (roundTiesToEven (x / u)) :: rat) \<le> of_int (roundTiesToEven (y / u))"
    by (simp only: of_int_le_iff)
  then have "of_int (roundTiesToEven (x / u)) * u \<le> of_int (roundTiesToEven (y / u)) * u"
    using u by (simp only: mult_le_cancel_right_pos)
  then show ?thesis
    by (simp only: fl_pos [OF assms(1)] fl_pos [OF y] True [symmetric] u_def)
next
  case False
  have y: "0 < y" using assms by simp
  from False binade_mono [OF assms] have "binade x + 1 \<le> binade y" by simp
  then have "pow2 (binade x + 1) \<le> pow2 (binade y)" by (rule pow2_mono)
  with fl_bounds(2) [OF assms(1)] fl_bounds(1) [OF y] show ?thesis by linarith
qed

lemma fl_mono:
  assumes "x \<le> y"
  shows "fl x \<le> fl y"
proof -
  consider "0 < x" | "x \<le> 0" "0 \<le> y" | "y < 0" by linarith
  then show ?thesis
  proof cases
    case 1
    then show ?thesis using assms by (rule fl_mono_pos)
  next
    case 2
    have "fl x \<le> 0"
    proof (cases "x = 0")
      case True
      then show ?thesis by (simp add: fl_zero)
    next
      case False
      with 2 have "0 < - x" by simp
      from fl_pos_pos [OF this] show ?thesis by (simp add: fl_minus)
    qed
    moreover have "0 \<le> fl y"
    proof (cases "y = 0")
      case True
      then show ?thesis by (simp add: fl_zero)
    next
      case False
      with 2 have "0 < y" by simp
      from fl_pos_pos [OF this] show ?thesis by simp
    qed
    ultimately show ?thesis by linarith
  next
    case 3
    then have "0 < - y" "- y \<le> - x" using assms by simp_all
    then have "fl (- y) \<le> fl (- x)" by (rule fl_mono_pos)
    then show ?thesis by (simp add: fl_minus)
  qed
qed

lemma fl_exact_pos:
  assumes "0 < m" and "m < 2 ^ 53"
  shows "fl (of_int m * pow2 e) = of_int m * pow2 e"
proof -
  define x where "x = of_int m * pow2 e"
  have x: "0 < x" using assms(1) by (simp add: x_def pow2_pos)
  have "x < of_int (2 ^ 53) * pow2 e"
    unfolding x_def using assms(2) pow2_pos [of e]
    by (simp only: mult_less_cancel_right_pos of_int_less_iff)
  also have "\<dots> = pow2 (e + 53)"
    using pow2_shift [of e 53] by simp
  finally have "x < pow2 (e + 53)" .
  with binade_bounds [OF x] have "pow2 (binade x) < pow2 (e + 53)" by linarith
  then have "binade x < e + 53"
    using pow2_mono [of "e + 53" "binade x"] by (cases "binade x < e + 53") auto
  then obtain k where k: "e - (binade x - 52) = int k"
    using nonneg_int_cases [of "e - (binade x - 52)"] by auto
  define u where "u = pow2 (binade x - 52)"
  have u: "0 < u" by (simp add: u_def pow2_pos)
  have e_eq: "e = binade x - 52 + int k" using k by linarith
  have pe: "pow2 e = 2 ^ k * u"
    unfolding u_def by (subst e_eq) (rule pow2_shift)
  have xu: "x = of_int (m * 2 ^ k) * u"
    unfolding x_def pe by simp
  then have "x / u = of_int (m * 2 ^ k)" using u by simp
  then have "roundTiesToEven (x / u) = m * 2 ^ k" by (simp only: rte_int)
  then have "fl x = of_int (m * 2 ^ k) * u"
    by (simp only: fl_pos [OF x] u_def)
  then have "fl x = x" by (simp only: xu [symmetric])
  then show ?thesis by (simp only: x_def)
qed

lemma fl_exact:
  assumes "\<bar>m\<bar> < 2 ^ 53"
  shows "fl (of_int m * pow2 e) = of_int m * pow2 e"
proof -
  consider "m = 0" | "0 < m" | "m < 0" by linarith
  then show ?thesis
  proof cases
    case 1
    then show ?thesis by (simp add: fl_zero)
  next
    case 2
    with assms show ?thesis by (simp add: fl_exact_pos)
  next
    case 3
    with assms have "0 < - m" "- m < 2 ^ 53" by simp_all
    from fl_exact_pos [OF this, of e] fl_minus [of "of_int (- m) * pow2 e"]
    show ?thesis by simp
  qed
qed

lemma fl_int: "\<bar>m\<bar> < 2 ^ 53 \<Longrightarrow> fl (of_int m) = of_int m"
  using fl_exact [of m 0] by (simp add: pow2_def)

lemma fl_nat: "n < 2 ^ 53 \<Longrightarrow> fl (of_nat n) = of_nat n"
  using fl_int [of "int n"] by simp

lemma fl_half: "\<bar>m\<bar> < 2 ^ 53 \<Longrightarrow> fl (of_int m / 2) = of_int m / 2"
  using fl_exact [of m "- 1"] by (simp add: pow2_def)

lemma fl_scale: "fl (pow2 k * x) = pow2 k * fl x"
proof -
  have pos: "fl (pow2 k * x) = pow2 k * fl x" if x: "0 < x" for x
  proof -
    have kx: "0 < pow2 k * x" using x by (simp add: pow2_pos)
    from binade_bounds [OF x] have "pow2 k * pow2 (binade x) \<le> pow2 k * x"
      "pow2 k * x < pow2 k * pow2 (binade x + 1)"
      using pow2_pos [of k] by simp_all
    then have "pow2 (binade x + k) \<le> pow2 k * x" "pow2 k * x < pow2 (binade x + k + 1)"
      using pow2_add [of k "binade x"] pow2_add [of k "binade x + 1"]
      by (simp_all add: add.commute add.left_commute)
    then have b: "binade (pow2 k * x) = binade x + k" by (rule binade_unique)
    define u where "u = pow2 (binade x - 52)"
    have u: "0 < u" by (simp add: u_def pow2_pos)
    have "binade x + k - 52 = k + (binade x - 52)" by simp
    then have "pow2 (binade x + k - 52) = pow2 (k + (binade x - 52))" by (simp only:)
    then have u': "pow2 (binade x + k - 52) = pow2 k * u"
      by (simp only: pow2_add u_def)
    have "pow2 k * x / (pow2 k * u) = x / u"
      using pow2_pos [of k] by simp
    then show ?thesis
      by (simp add: fl_pos [OF kx] fl_pos [OF x] b u' u_def [symmetric])
  qed
  consider "x = 0" | "0 < x" | "x < 0" by linarith
  then show ?thesis
  proof cases
    case 1
    then show ?thesis by (simp add: fl_zero)
  next
    case 2
    then show ?thesis by (rule pos)
  next
    case 3
    then have "0 < - x" by simp
    from pos [OF this] fl_minus [of "pow2 k * - x"] fl_minus [of x] show ?thesis by simp
  qed
qed

lemma fl_error_pos:
  assumes "0 < x"
  shows "\<bar>fl x - x\<bar> \<le> x / 2 ^ 53"
proof -
  define u where "u = pow2 (binade x - 52)"
  have u: "0 < u" by (simp add: u_def pow2_pos)
  have "\<bar>of_int (roundTiesToEven (x / u)) - x / u\<bar> \<le> 1 / 2" by (rule rte_error)
  then have "\<bar>of_int (roundTiesToEven (x / u)) - x / u\<bar> * u \<le> 1 / 2 * u"
    using u by (simp only: mult_le_cancel_right_pos)
  moreover have "\<bar>of_int (roundTiesToEven (x / u)) - x / u\<bar> * u
        = \<bar>of_int (roundTiesToEven (x / u)) * u - x\<bar>"
  proof -
    have "of_int (roundTiesToEven (x / u)) * u - x
          = (of_int (roundTiesToEven (x / u)) - x / u) * u"
      using u by (simp add: left_diff_distrib)
    then show ?thesis
      using u by (simp only: abs_mult abs_of_pos)
  qed
  ultimately have e: "\<bar>fl x - x\<bar> \<le> u / 2"
    by (simp add: fl_pos [OF assms] u_def)
  have "pow2 (binade x) = 2 ^ 52 * u"
    using pow2_lo52 [of "binade x"] by (simp add: u_def)
  with binade_bounds [OF assms] have "2 ^ 52 * u \<le> x" by simp
  then have "u / 2 \<le> x / 2 ^ 53" by (simp add: field_simps)
  with e show ?thesis by linarith
qed

lemma fl_idem: "fl (fl x) = fl x"
proof -
  have pos: "fl (fl x) = fl x" if x: "0 < x" for x
  proof -
    define u where "u = pow2 (binade x - 52)"
    define M where "M = roundTiesToEven (x / u)"
    have f: "fl x = of_int M * u" by (simp add: fl_pos [OF x] u_def M_def)
    from fl_pos_pos [OF x] have "0 < of_int M * u" by (simp add: f)
    then have M0: "0 < M" using pow2_pos [of "binade x - 52"]
      by (simp add: u_def zero_less_mult_iff)
    from fl_bounds(2) [OF x] have "of_int M * u \<le> pow2 (binade x + 1)" by (simp add: f)
    moreover have "pow2 (binade x + 1) = of_int (2 ^ 53) * u"
      using pow2_hi53 [of "binade x"] by (simp add: u_def)
    ultimately have "(of_int M :: rat) \<le> of_int (2 ^ 53)"
      using pow2_pos [of "binade x - 52"] by (simp add: u_def)
    then have "M \<le> 2 ^ 53" by (simp only: of_int_le_iff)
    then consider "M < 2 ^ 53" | "M = 2 ^ 53" by linarith
    then show ?thesis
    proof cases
      case 1
      with M0 show ?thesis
        using fl_exact_pos [of M "binade x - 52"] by (simp add: f u_def)
    next
      case 2
      then have "fl x = of_int 1 * pow2 (binade x + 1)"
        using pow2_hi53 [of "binade x"] by (simp add: f u_def)
      with fl_exact_pos [of 1 "binade x + 1"] show ?thesis by simp
    qed
  qed
  consider "x = 0" | "0 < x" | "x < 0" by linarith
  then show ?thesis
  proof cases
    case 1
    then show ?thesis by (simp add: fl_zero)
  next
    case 2
    then show ?thesis by (rule pos)
  next
    case 3
    then have "0 < - x" by simp
    from pos [OF this] show ?thesis by (simp add: fl_minus)
  qed
qed


lemma fl_ge_one: "1 \<le> x \<Longrightarrow> 1 \<le> fl x"
  using fl_mono [of 1 x] fl_int [of 1] by simp

lemma fl_le_minus_one: "x \<le> - 1 \<Longrightarrow> fl x \<le> - 1"
  using fl_mono [of x "- 1"] fl_int [of "- 1"] by simp

lemma fl_times_128: "fl (x * (- 128)) = - (128 * fl x)"
proof -
  have "x * (- 128) = - (pow2 7 * x)" by (simp add: pow2_def)
  then have "fl (x * (- 128)) = - (pow2 7 * fl x)" by (simp only: fl_minus fl_scale)
  then show ?thesis by (simp add: pow2_def)
qed

lemma fl_separated:
  assumes "0 < x" and "x * (2 ^ 53 + 1) < y * (2 ^ 53 - 1)"
  shows "fl x < fl y"
proof -
  have y: "0 < y"
  proof (rule ccontr)
    assume "\<not> 0 < y"
    then have "y * (2 ^ 53 - 1) \<le> 0" by (simp add: mult_le_0_iff)
    moreover have "0 < x * (2 ^ 53 + 1)" using assms(1) by simp
    ultimately show False using assms(2) by linarith
  qed
  from fl_error_pos [OF assms(1)] have "fl x \<le> x + x / 2 ^ 53" by linarith
  moreover from fl_error_pos [OF y] have "y - y / 2 ^ 53 \<le> fl y" by linarith
  moreover have "x + x / 2 ^ 53 < y - y / 2 ^ 53"
    using assms(2) by (simp add: field_simps)
  ultimately show ?thesis by linarith
qed


section \<open>The Otsu threshold\<close>

subsection \<open>The scanning loop\<close>

lemma foldl_add_sum_list: "foldl (\<lambda>acc count. acc + count) a xs = a + sum_list xs" for a :: nat
  by (induction xs arbitrary: a) simp_all

lemma foldl_add_upt: "foldl (\<lambda>acc i. acc + f i) a [0..<n] = a + (\<Sum>i<n. f i)" for a :: nat
  by (induction n) simp_all

lemma otsu_run_eq:
  "otsu_run h = otsu_loop h (total_count h) (intensity_sum h) [0..<256] otsu_init"
  by (simp add: otsu_run_def total_count_def intensity_sum_def foldl_add_sum_list
      foldl_add_upt [where a = 0 and n = 256, simplified] Let_def del: upt_rec_numeral)

lemma total_count_nth: "total_count h = (\<Sum>i<length h. h ! i)"
  by (simp add: total_count_def sum_list_sum_nth atLeast0LessThan)

lemma wB_at_Suc: "wB_at h t = (\<Sum>i<t. h ! i) + h ! t"
  by (simp add: wB_at_def lessThan_Suc_atMost [symmetric])

lemma sumB_at_Suc: "sumB_at h t = (\<Sum>i<t. i * h ! i) + t * h ! t"
  by (simp add: sumB_at_def lessThan_Suc_atMost [symmetric])

lemma wB_at_mono: "t \<le> t' \<Longrightarrow> wB_at h t \<le> wB_at h t'"
  unfolding wB_at_def by (rule sum_mono2) auto

lemma wB_at_le_total:
  assumes "t < length h"
  shows "wB_at h t \<le> total_count h"
  unfolding wB_at_def total_count_nth using assms by (intro sum_mono2) auto

lemma wF_at_nonneg: "t < length h \<Longrightarrow> 0 \<le> wF_at h t"
  using wB_at_le_total [of t h] by (simp add: wF_at_def)

lemma wF_at_antimono: "t \<le> t' \<Longrightarrow> wF_at h t' \<le> wF_at h t"
  using wB_at_mono [of t t' h] by (simp add: wF_at_def)

lemma wF_at_sum:
  assumes "length h = 256" and "t < 256"
  shows "wF_at h t = int (\<Sum>i\<in>{t<..<256}. h ! i)"
proof -
  have "{..<256::nat} = {..t} \<union> {t<..<256}" using assms(2) by auto
  moreover have "(\<Sum>i\<in>{..t} \<union> {t<..<256}. h ! i)
                 = (\<Sum>i\<le>t. h ! i) + (\<Sum>i\<in>{t<..<256}. h ! i)"
    by (rule sum.union_disjoint) auto
  ultimately have "(\<Sum>i<256. h ! i) = (\<Sum>i\<le>t. h ! i) + (\<Sum>i\<in>{t<..<256}. h ! i)"
    by (simp only:)
  then show ?thesis
    by (simp add: wF_at_def wB_at_def total_count_nth assms(1))
qed

lemma upper_intensity:
  assumes "t < 256"
  shows "int (intensity_sum h) - int (sumB_at h t) = int (\<Sum>i\<in>{t<..<256}. i * h ! i)"
proof -
  have "{..<256::nat} = {..t} \<union> {t<..<256}" using assms by auto
  moreover have "(\<Sum>i\<in>{..t} \<union> {t<..<256}. i * h ! i)
                 = (\<Sum>i\<le>t. i * h ! i) + (\<Sum>i\<in>{t<..<256}. i * h ! i)"
    by (rule sum.union_disjoint) auto
  ultimately have "(\<Sum>i<256. i * h ! i)
                 = (\<Sum>i\<le>t. i * h ! i) + (\<Sum>i\<in>{t<..<256}. i * h ! i)"
    by (simp only:)
  then show ?thesis
    by (simp add: intensity_sum_def sumB_at_def)
qed

lemma sumB_at_le: "sumB_at h t \<le> t * wB_at h t"
  unfolding sumB_at_def wB_at_def sum_distrib_left by (rule sum_mono) simp

lemma upper_intensity_ge: "Suc t * (\<Sum>i\<in>{t<..<256}. h ! i) \<le> (\<Sum>i\<in>{t<..<256}. i * h ! i)"
  unfolding sum_distrib_left
proof (rule sum_mono)
  fix i :: nat
  assume "i \<in> {t<..<256}"
  then have "Suc t \<le> i" by simp
  then show "Suc t * h ! i \<le> i * h ! i" by (rule mult_le_mono1)
qed

lemma variance_ge_one:
  assumes b: "0 < b" and f: "0 < f" and sb: "sb \<le> t * b" and sf: "int (Suc t) * f \<le> sf"
      and t: "t < 256"
  shows "1 \<le> between_class_variance b f sb sf"
proof -
  define mB where "mB = js_div (of_nat sb) (of_nat b)"
  define mF where "mF = js_div (of_int sf) (of_int f)"
  define d where "d = js_sub mB mF"
  have "(of_nat sb :: rat) \<le> of_nat (t * b)" using sb by (simp only: of_nat_le_iff)
  then have "(of_nat sb :: rat) / of_nat b \<le> of_nat t"
    using b by (simp add: field_simps)
  then have "mB \<le> fl (of_nat t)" unfolding mB_def js_div_def by (rule fl_mono)
  then have mB: "mB \<le> of_nat t" using t by (simp add: fl_nat)
  have "(of_int (int (Suc t) * f) :: rat) \<le> of_int sf" using sf by (simp only: of_int_le_iff)
  then have "of_nat (Suc t) \<le> (of_int sf :: rat) / of_int f"
    using f by (simp add: field_simps)
  then have "fl (of_nat (Suc t)) \<le> mF" unfolding mF_def js_div_def by (rule fl_mono)
  moreover have "fl (of_nat (Suc t)) = of_nat (Suc t)" using t by (intro fl_nat) simp
  ultimately have "of_nat (Suc t) \<le> mF" by (simp only:)
  then have mF: "of_nat t + 1 \<le> mF" by simp
  from mB mF have "mB - mF \<le> - 1" by linarith
  then have d: "d \<le> - 1" unfolding d_def js_sub_def by (rule fl_le_minus_one)
  have "(1::rat) \<le> of_nat b * of_int f"
  proof -
    have "1 * 1 \<le> int b * f" using b f by (intro mult_mono) simp_all
    then have "1 \<le> int b * f" by simp
    then have "(of_int 1 :: rat) \<le> of_int (int b * f)" by (simp only: of_int_le_iff)
    then show ?thesis by simp
  qed
  then have p1: "1 \<le> js_mul (of_nat b) (of_int f)"
    unfolding js_mul_def by (rule fl_ge_one)
  have "js_mul (of_nat b) (of_int f) * d \<le> - 1"
  proof -
    have "js_mul (of_nat b) (of_int f) * d \<le> 1 * d"
      using p1 d by (intro mult_right_mono_neg) simp_all
    with d show ?thesis by linarith
  qed
  then have p2: "js_mul (js_mul (of_nat b) (of_int f)) d \<le> - 1"
    unfolding js_mul_def [of "js_mul (of_nat b) (of_int f)" d] by (rule fl_le_minus_one)
  have "1 \<le> js_mul (js_mul (of_nat b) (of_int f)) d * d"
  proof -
    have "(- 1) * d \<le> js_mul (js_mul (of_nat b) (of_int f)) d * d"
      using p2 d by (intro mult_right_mono_neg) simp_all
    with d show ?thesis by linarith
  qed
  then have "1 \<le> js_mul (js_mul (js_mul (of_nat b) (of_int f)) d) d"
    unfolding js_mul_def [of "js_mul (js_mul (of_nat b) (of_int f)) d" d] by (rule fl_ge_one)
  then show ?thesis
    by (simp add: between_class_variance_def Let_def mB_def mF_def d_def)
qed

lemma variance_at_pos:
  assumes "length h = 256" and "valid_threshold h t"
  shows "1 \<le> variance_at h t"
proof -
  from assms(2) have t: "t < 256" and b: "0 < wB_at h t" and f0: "wF_at h t \<noteq> 0"
    by (simp_all add: valid_threshold_def)
  from f0 wF_at_nonneg [of t h] t assms(1) have f: "0 < wF_at h t" by simp
  have "int (Suc t) * wF_at h t \<le> int (intensity_sum h) - int (sumB_at h t)"
    using upper_intensity_ge [of t h]
    by (simp only: wF_at_sum [OF assms(1) t] upper_intensity [OF t] of_nat_mult [symmetric]
        of_nat_le_iff)
  with b f t show ?thesis
    unfolding variance_at_def by (intro variance_ge_one [where t = t] sumB_at_le) simp_all
qed

lemma best_cong:
  "maxVariance s' = maxVariance s \<Longrightarrow> threshold s' = threshold s \<Longrightarrow>
   best_so_far h k s' = best_so_far h k s"
  by (simp add: best_so_far_def)

lemma best_extend:
  assumes best: "best_so_far h k s" and kn: "k \<le> n"
      and none: "\<forall>t. k \<le> t \<and> t < n \<longrightarrow> \<not> valid_threshold h t"
  shows "best_so_far h n s"
proof -
  have v: "t < k" if "t < n" "valid_threshold h t" for t
    using that none by (cases "t < k") auto
  from best have b1: "\<forall>t<k. valid_threshold h t \<longrightarrow> variance_at h t \<le> maxVariance s"
    and b2: "\<forall>t<k. valid_threshold h t \<longrightarrow> t < threshold s \<longrightarrow> variance_at h t < maxVariance s"
    and b3: "(\<exists>t<k. valid_threshold h t) \<longrightarrow>
        threshold s < k \<and> valid_threshold h (threshold s)
        \<and> maxVariance s = variance_at h (threshold s)"
    and b4: "(\<forall>t<k. \<not> valid_threshold h t) \<longrightarrow> threshold s = 0 \<and> maxVariance s = 0"
    by (simp_all add: best_so_far_def)
  show ?thesis
    unfolding best_so_far_def
  proof (intro conjI allI impI)
    fix t assume "t < n" "valid_threshold h t"
    with v b1 show "variance_at h t \<le> maxVariance s" by blast
  next
    fix t assume "t < n" "valid_threshold h t" "t < threshold s"
    with v b2 show "variance_at h t < maxVariance s" by blast
  next
    assume "\<exists>t<n. valid_threshold h t"
    with v have ex: "\<exists>t<k. valid_threshold h t" by blast
    with b3 kn show "threshold s < n" by simp
    from ex b3 show "valid_threshold h (threshold s)" by simp
    from ex b3 show "maxVariance s = variance_at h (threshold s)" by simp
  next
    assume "\<forall>t<n. \<not> valid_threshold h t"
    with kn have all: "\<forall>t<k. \<not> valid_threshold h t" by simp
    with b4 show "threshold s = 0" by simp
    from all b4 show "maxVariance s = 0" by simp
  qed
qed

lemma best_skip:
  assumes "best_so_far h k s" and "\<not> valid_threshold h k"
      and "maxVariance s' = maxVariance s" and "threshold s' = threshold s"
  shows "best_so_far h (Suc k) s'"
proof -
  have "\<forall>t. k \<le> t \<and> t < Suc k \<longrightarrow> \<not> valid_threshold h t"
    using assms(2) by (auto simp: less_Suc_eq)
  then have "best_so_far h (Suc k) s" by (rule best_extend [OF assms(1) le_SucI [OF order_refl]])
  then show ?thesis by (simp only: best_cong [OF assms(3,4)])
qed

lemma best_take:
  assumes best: "best_so_far h k s" and va: "valid_threshold h k"
      and lt: "maxVariance s < variance_at h k"
      and m': "maxVariance s' = variance_at h k" and t': "threshold s' = k"
  shows "best_so_far h (Suc k) s'"
proof -
  from best have b1: "\<forall>t<k. valid_threshold h t \<longrightarrow> variance_at h t \<le> maxVariance s"
    by (simp add: best_so_far_def)
  have below: "variance_at h t < variance_at h k" if "t < k" "valid_threshold h t" for t
    using that b1 lt by fastforce
  show ?thesis
    unfolding best_so_far_def
  proof (intro conjI allI impI)
    fix t assume t: "t < Suc k" "valid_threshold h t"
    show "variance_at h t \<le> maxVariance s'"
    proof (cases "t = k")
      case True
      then show ?thesis by (simp add: m')
    next
      case False
      with t have "t < k" by simp
      from below [OF this t(2)] show ?thesis by (simp add: m')
    qed
  next
    fix t assume "t < Suc k" "valid_threshold h t" "t < threshold s'"
    then have "t < k" by (simp add: t')
    from below [OF this \<open>valid_threshold h t\<close>] show "variance_at h t < maxVariance s'"
      by (simp add: m')
  next
    show "threshold s' < Suc k" by (simp add: t')
    show "valid_threshold h (threshold s')" by (simp add: t' va)
    show "maxVariance s' = variance_at h (threshold s')" by (simp add: t' m')
  next
    assume "\<forall>t<Suc k. \<not> valid_threshold h t"
    with va have False by simp
    then show "threshold s' = 0" "maxVariance s' = 0" by simp_all
  qed
qed

lemma best_keep:
  assumes best: "best_so_far h k s" and va: "valid_threshold h k"
      and ge: "\<not> maxVariance s < variance_at h k" and pos: "0 < variance_at h k"
      and m': "maxVariance s' = maxVariance s" and t': "threshold s' = threshold s"
  shows "best_so_far h (Suc k) s'"
proof -
  from best have b1: "\<forall>t<k. valid_threshold h t \<longrightarrow> variance_at h t \<le> maxVariance s"
    and b2: "\<forall>t<k. valid_threshold h t \<longrightarrow> t < threshold s \<longrightarrow> variance_at h t < maxVariance s"
    and b3: "(\<exists>t<k. valid_threshold h t) \<longrightarrow>
        threshold s < k \<and> valid_threshold h (threshold s)
        \<and> maxVariance s = variance_at h (threshold s)"
    and b4: "(\<forall>t<k. \<not> valid_threshold h t) \<longrightarrow> threshold s = 0 \<and> maxVariance s = 0"
    by (simp_all add: best_so_far_def)
  have ex: "\<exists>t<k. valid_threshold h t"
  proof (rule ccontr)
    assume "\<not> (\<exists>t<k. valid_threshold h t)"
    with b4 have "maxVariance s = 0" by simp
    with ge pos show False by simp
  qed
  with b3 have th: "threshold s < k" "valid_threshold h (threshold s)"
    "maxVariance s = variance_at h (threshold s)"
    by simp_all
  show ?thesis
    unfolding best_so_far_def
  proof (intro conjI allI impI)
    fix t assume t: "t < Suc k" "valid_threshold h t"
    show "variance_at h t \<le> maxVariance s'"
    proof (cases "t = k")
      case True
      with ge show ?thesis by (simp add: m')
    next
      case False
      with t have "t < k" by simp
      with b1 t(2) show ?thesis by (simp add: m')
    qed
  next
    fix t assume t: "t < Suc k" "valid_threshold h t" "t < threshold s'"
    then have "t < k" using th(1) by (simp add: t')
    with b2 t show "variance_at h t < maxVariance s'" by (simp add: m' t')
  next
    show "threshold s' < Suc k" using th(1) by (simp add: t')
    show "valid_threshold h (threshold s')" using th(2) by (simp add: t')
    show "maxVariance s' = variance_at h (threshold s')" using th(3) by (simp add: t' m')
  next
    assume "\<forall>t<Suc k. \<not> valid_threshold h t"
    with va have False by simp
    then show "threshold s' = 0" "maxVariance s' = 0" by simp_all
  qed
qed

lemma otsu_loop_step:
  assumes "k < 256"
  shows "otsu_loop h tot isum [k..<256] s =
     (let b = wB s + h ! k in
      if b = 0 then
        otsu_loop h tot isum [Suc k..<256] (s\<lparr>wB := b, events := events s @ [Skipped k]\<rparr>)
      else
        let f = int tot - int b in
        if f = 0 then s\<lparr>wB := b, wF := f, events := events s @ [Stopped k]\<rparr>
        else
          let sb = sumB s + k * h ! k;
              variance = between_class_variance b f sb (int isum - int sb);
              s' = s\<lparr>sumB := sb, wB := b, wF := f,
                     events := events s @ [Evaluated k b f variance]\<rparr>
          in otsu_loop h tot isum [Suc k..<256]
               (if maxVariance s < variance
                then s'\<lparr>maxVariance := variance, threshold := k\<rparr> else s'))"
proof -
  have "[k..<256] = k # [Suc k..<256]" using assms by (simp add: upt_conv_Cons del: upt_rec_numeral)
  then show ?thesis by (simp only: otsu_loop.simps)
qed

lemma otsu_loop_inv:
  assumes len: "length h = 256"
  shows "k \<le> 256 \<Longrightarrow> otsu_inv h k s \<Longrightarrow>
         \<exists>m. k \<le> m \<and> m \<le> 256 \<and>
             otsu_final h m (otsu_loop h (total_count h) (intensity_sum h) [k..<256] s)"
proof (induction "256 - k" arbitrary: k s)
  case 0
  then have k: "k = 256" by simp
  from "0.prems"(2) have "otsu_final h 256 s"
    by (simp add: otsu_inv_def otsu_final_def k)
  then show ?case by (auto simp: k intro!: exI [of _ 256])
next
  case (Suc d)
  then have k: "k < 256" by simp
  from Suc.prems(2) have inv:
    "wB s = (\<Sum>i<k. h ! i)" "sumB s = (\<Sum>i<k. i * h ! i)"
    "events s = map (scan_event h) [0..<k]" "\<forall>t<k. \<not> stops_at h t" "best_so_far h k s"
    by (simp_all add: otsu_inv_def)
  let ?b = "wB s + h ! k"
  let ?f = "int (total_count h) - int ?b"
  let ?sb = "sumB s + k * h ! k"
  let ?v = "between_class_variance ?b ?f ?sb (int (intensity_sum h) - int ?sb)"
  have b: "?b = wB_at h k" by (simp add: wB_at_Suc inv(1))
  have f: "?f = wF_at h k" by (simp add: wF_at_def b)
  have sb: "?sb = sumB_at h k" by (simp add: sumB_at_Suc inv(2))
  have v: "?v = variance_at h k" by (simp only: variance_at_def wF_at_def b sb)
  have d: "d = 256 - Suc k" using Suc.hyps(2) by simp
  have sk: "Suc k \<le> 256" using k by simp
  consider (skip) "?b = 0" | (stop) "?b \<noteq> 0" "?f = 0" | (eval) "?b \<noteq> 0" "?f \<noteq> 0"
    by blast
  then show ?case
  proof cases
    case skip
    let ?s1 = "s\<lparr>wB := ?b, events := events s @ [Skipped k]\<rparr>"
    have hk: "h ! k = 0" using skip by simp
    have nv: "\<not> valid_threshold h k" using skip b by (simp add: valid_threshold_def)
    have "otsu_inv h (Suc k) ?s1"
      unfolding otsu_inv_def
    proof (intro conjI)
      show "wB ?s1 = (\<Sum>i<Suc k. h ! i)" by (simp add: inv(1))
      show "sumB ?s1 = (\<Sum>i<Suc k. i * h ! i)" by (simp add: inv(2) hk)
      show "events ?s1 = map (scan_event h) [0..<Suc k]"
        using skip b by (simp add: inv(3) scan_event_def)
      show "\<forall>t<Suc k. \<not> stops_at h t"
        using inv(4) skip b by (auto simp: less_Suc_eq stops_at_def)
      show "best_so_far h (Suc k) ?s1"
        by (rule best_skip [OF inv(5) nv]) simp_all
    qed
    from Suc.hyps(1) [OF d sk this]
    obtain m where "Suc k \<le> m" "m \<le> 256"
      "otsu_final h m (otsu_loop h (total_count h) (intensity_sum h) [Suc k..<256] ?s1)"
      by blast
    moreover have "otsu_loop h (total_count h) (intensity_sum h) [k..<256] s
        = otsu_loop h (total_count h) (intensity_sum h) [Suc k..<256] ?s1"
      using skip by (simp only: otsu_loop_step [OF k] Let_def if_True if_False simp_thms)
    ultimately show ?thesis by (auto intro!: exI [of _ m])
  next
    case stop
    let ?s2 = "s\<lparr>wB := ?b, wF := ?f, events := events s @ [Stopped k]\<rparr>"
    have st: "stops_at h k" using stop b f by (simp add: stops_at_def)
    have later: "\<forall>t. k \<le> t \<and> t < 256 \<longrightarrow> \<not> valid_threshold h t"
    proof (intro allI impI)
      fix t assume t: "k \<le> t \<and> t < 256"
      then have "wF_at h t \<le> wF_at h k" by (simp add: wF_at_antimono)
      moreover have "0 \<le> wF_at h t" using t len by (simp add: wF_at_nonneg)
      ultimately have "wF_at h t = 0" using stop(2) f by simp
      then show "\<not> valid_threshold h t" by (simp add: valid_threshold_def)
    qed
    have "best_so_far h 256 s" by (rule best_extend [OF inv(5) _ later]) (use k in simp)
    then have "best_so_far h 256 ?s2" by (simp add: best_so_far_def)
    then have "otsu_final h (Suc k) ?s2"
      using st inv(3,4) stop b f k by (simp add: otsu_final_def scan_event_def)
    moreover have "otsu_loop h (total_count h) (intensity_sum h) [k..<256] s = ?s2"
      using stop by (simp only: otsu_loop_step [OF k] Let_def if_True if_False simp_thms)
    ultimately show ?thesis using k by (auto intro!: exI [of _ "Suc k"])
  next
    case eval
    let ?s' = "s\<lparr>sumB := ?sb, wB := ?b, wF := ?f,
                  events := events s @ [Evaluated k ?b ?f ?v]\<rparr>"
    let ?s3 = "if maxVariance s < ?v then ?s'\<lparr>maxVariance := ?v, threshold := k\<rparr> else ?s'"
    have va: "valid_threshold h k" using eval b f k by (simp add: valid_threshold_def)
    have pos: "0 < variance_at h k" using variance_at_pos [OF len va] by simp
    have "otsu_inv h (Suc k) ?s3"
      unfolding otsu_inv_def
    proof (intro conjI)
      show "wB ?s3 = (\<Sum>i<Suc k. h ! i)" by (simp add: inv(1))
      show "sumB ?s3 = (\<Sum>i<Suc k. i * h ! i)" by (simp add: inv(2))
      show "events ?s3 = map (scan_event h) [0..<Suc k]"
        using eval by (simp add: inv(3) scan_event_def b [symmetric] f [symmetric] v [symmetric]
            del: of_nat_add)
      show "\<forall>t<Suc k. \<not> stops_at h t"
        using inv(4) eval b f by (auto simp: less_Suc_eq stops_at_def)
      show "best_so_far h (Suc k) ?s3"
      proof (cases "maxVariance s < ?v")
        case True
        then have lt: "maxVariance s < variance_at h k" unfolding v .
        have "best_so_far h (Suc k) (?s'\<lparr>maxVariance := ?v, threshold := k\<rparr>)"
          by (rule best_take [OF inv(5) va lt]) (simp_all add: v del: of_nat_add of_nat_mult)
        with True show ?thesis by (simp only: if_True)
      next
        case False
        then have ge: "\<not> maxVariance s < variance_at h k" unfolding v .
        have "best_so_far h (Suc k) ?s'"
          by (rule best_keep [OF inv(5) va ge pos]) simp_all
        with False show ?thesis by (simp only: if_False)
      qed
    qed
    from Suc.hyps(1) [OF d sk this]
    obtain m where "Suc k \<le> m" "m \<le> 256"
      "otsu_final h m (otsu_loop h (total_count h) (intensity_sum h) [Suc k..<256] ?s3)"
      by blast
    moreover have "otsu_loop h (total_count h) (intensity_sum h) [k..<256] s
        = otsu_loop h (total_count h) (intensity_sum h) [Suc k..<256] ?s3"
      using eval by (simp only: otsu_loop_step [OF k] Let_def if_True if_False simp_thms)
    ultimately show ?thesis by (auto intro!: exI [of _ m])
  qed
qed

lemma otsu_init_inv: "otsu_inv h 0 otsu_init"
  by (simp add: otsu_inv_def otsu_init_def best_so_far_def)

lemma otsu_run_final:
  assumes "length h = 256"
  shows "\<exists>m\<le>256. otsu_final h m (otsu_run h)"
  using otsu_loop_inv [OF assms, of 0 otsu_init] otsu_init_inv [of h]
  by (auto simp: otsu_run_eq)

lemma otsu_run_best:
  assumes "length h = 256"
  shows "best_so_far h 256 (otsu_run h)"
  using otsu_run_final [OF assms] by (auto simp: otsu_final_def)

lemma valid_below: "valid_threshold h t \<Longrightarrow> t < 256"
  by (simp add: valid_threshold_def)

lemma otsu_threshold_valid:
  assumes "length h = 256" and "valid_threshold h t0"
  shows "valid_threshold h (calculateOtsuThreshold h)"
    and "variance_at h t0 \<le> variance_at h (calculateOtsuThreshold h)"
    and "t0 < calculateOtsuThreshold h \<Longrightarrow>
         variance_at h t0 < variance_at h (calculateOtsuThreshold h)"
proof -
  let ?r = "otsu_run h"
  from otsu_run_best [OF assms(1)]
  have b1: "\<forall>t<256. valid_threshold h t \<longrightarrow> variance_at h t \<le> maxVariance ?r"
    and b2: "\<forall>t<256. valid_threshold h t \<longrightarrow> t < threshold ?r \<longrightarrow>
               variance_at h t < maxVariance ?r"
    and b3: "(\<exists>t<256. valid_threshold h t) \<longrightarrow>
        threshold ?r < 256 \<and> valid_threshold h (threshold ?r)
        \<and> maxVariance ?r = variance_at h (threshold ?r)"
    by (simp_all add: best_so_far_def)
  have t0: "t0 < 256" using assms(2) by (rule valid_below)
  with assms(2) b3 have th: "valid_threshold h (threshold ?r)"
    "maxVariance ?r = variance_at h (threshold ?r)"
    by blast+
  show "valid_threshold h (calculateOtsuThreshold h)"
    using th(1) by (simp add: calculateOtsuThreshold_def)
  show "variance_at h t0 \<le> variance_at h (calculateOtsuThreshold h)"
    using b1 t0 assms(2) th(2) by (simp add: calculateOtsuThreshold_def)
  show "variance_at h t0 < variance_at h (calculateOtsuThreshold h)"
    if "t0 < calculateOtsuThreshold h"
    using b2 t0 assms(2) th(2) that by (simp add: calculateOtsuThreshold_def)
qed

lemma otsu_threshold_none:
  assumes "length h = 256" and "\<forall>t. \<not> valid_threshold h t"
  shows "calculateOtsuThreshold h = 0"
  using otsu_run_best [OF assms(1)] assms(2)
  by (simp add: best_so_far_def calculateOtsuThreshold_def)


lemma otsu_run_events:
  assumes "length h = 256"
  shows "\<exists>m\<le>256. events (otsu_run h) = map (scan_event h) [0..<m]
           \<and> (\<forall>t. Suc t < m \<longrightarrow> \<not> stops_at h t)
           \<and> (m < 256 \<longrightarrow> 0 < m \<and> stops_at h (m - 1))"
  using otsu_run_final [OF assms] by (auto simp: otsu_final_def)

subsection \<open>Two occupied bins, the occupied range, the uniform histogram\<close>

lemma two_peaks_length: "length (two_peaks a p b q) = 256"
  by (simp add: two_peaks_def)

lemma two_peaks_nth:
  assumes "a < b" and "b < 256" and "i < 256"
  shows "two_peaks a p b q ! i = (if i = a then p else 0) + (if i = b then q else 0)"
  using assms by (simp add: two_peaks_def nth_list_update)

lemma sum_two_deltas:
  assumes "finite S"
  shows "(\<Sum>i\<in>S. f i * ((if i = a then p else 0) + (if i = b then q else 0)))
         = (if a \<in> S then f a * p else 0) + (if b \<in> S then f b * q else (0::nat))"
proof -
  have "(\<Sum>i\<in>S. f i * ((if i = a then p else 0) + (if i = b then q else 0)))
        = (\<Sum>i\<in>S. (if i = a then f a * p else 0)) + (\<Sum>i\<in>S. (if i = b then f b * q else 0))"
    by (simp add: sum.distrib [symmetric] distrib_left) (rule sum.cong, auto)
  then show ?thesis using assms by (simp add: sum.delta)
qed

lemma two_peaks_sum_over:
  assumes "a < b" and "b < 256" and "S \<subseteq> {..<256}" and "finite S"
  shows "(\<Sum>i\<in>S. f i * two_peaks a p b q ! i)
         = (if a \<in> S then f a * p else 0) + (if b \<in> S then f b * q else 0)"
proof -
  have "(\<Sum>i\<in>S. f i * two_peaks a p b q ! i)
        = (\<Sum>i\<in>S. f i * ((if i = a then p else 0) + (if i = b then q else 0)))"
  proof (rule sum.cong)
    fix i assume "i \<in> S"
    with assms(3) have "i < 256" by auto
    then show "f i * two_peaks a p b q ! i
               = f i * ((if i = a then p else 0) + (if i = b then q else 0))"
      by (simp only: two_peaks_nth [OF assms(1,2)])
  qed simp
  then show ?thesis by (simp only: sum_two_deltas [OF assms(4)])
qed

lemma two_peaks_wB:
  assumes "a < b" and "b < 256" and "t < 256"
  shows "wB_at (two_peaks a p b q) t = (if a \<le> t then p else 0) + (if b \<le> t then q else 0)"
proof -
  have "{..t} \<subseteq> {..<256::nat}" using assms(3) by auto
  from two_peaks_sum_over [OF assms(1,2) this finite_atMost, of "\<lambda>i. 1" p q]
  show ?thesis by (simp add: wB_at_def)
qed

lemma two_peaks_sumB:
  assumes "a < b" and "b < 256" and "t < 256"
  shows "sumB_at (two_peaks a p b q) t
         = (if a \<le> t then a * p else 0) + (if b \<le> t then b * q else 0)"
proof -
  have "{..t} \<subseteq> {..<256::nat}" using assms(3) by auto
  from two_peaks_sum_over [OF assms(1,2) this finite_atMost, of "\<lambda>i. i" p q]
  show ?thesis by (simp add: sumB_at_def)
qed

lemma two_peaks_total:
  assumes "a < b" and "b < 256"
  shows "total_count (two_peaks a p b q) = p + q"
proof -
  have "{..<256::nat} \<subseteq> {..<256}" by simp
  from two_peaks_sum_over [OF assms this finite_lessThan, of "\<lambda>i. 1" p q]
  show ?thesis using assms by (simp add: total_count_nth two_peaks_length)
qed

lemma two_peaks_intensity:
  assumes "a < b" and "b < 256"
  shows "intensity_sum (two_peaks a p b q) = a * p + b * q"
proof -
  have "{..<256::nat} \<subseteq> {..<256}" by simp
  from two_peaks_sum_over [OF assms this finite_lessThan, of "\<lambda>i. i" p q]
  show ?thesis using assms by (simp add: intensity_sum_def)
qed

lemma two_peaks_valid:
  assumes "a < b" and "b < 256" and "0 < p" and "0 < q"
  shows "valid_threshold (two_peaks a p b q) t \<longleftrightarrow> a \<le> t \<and> t < b"
proof (cases "t < 256")
  case True
  show ?thesis
    using assms(1,3,4) True
    by (auto simp: valid_threshold_def wF_at_def two_peaks_wB [OF assms(1,2) True]
        two_peaks_total [OF assms(1,2)])
next
  case False
  then show ?thesis using assms(2) by (simp add: valid_threshold_def)
qed

lemma two_peaks_variance:
  assumes "a < b" and "b < 256" and "a \<le> t" and "t < b"
  shows "variance_at (two_peaks a p b q) t
         = between_class_variance p (int q) (a * p) (int (b * q))"
proof -
  have t: "t < 256" using assms by simp
  show ?thesis
    using assms(3,4)
    by (simp add: variance_at_def wF_at_def two_peaks_wB [OF assms(1,2) t]
        two_peaks_sumB [OF assms(1,2) t] two_peaks_total [OF assms(1,2)]
        two_peaks_intensity [OF assms(1,2)])
qed

lemma two_peaks_threshold:
  assumes "a < b" and "b < 256" and "0 < p" and "0 < q"
  shows "calculateOtsuThreshold (two_peaks a p b q) = a"
proof -
  let ?h = "two_peaks a p b q"
  let ?T = "calculateOtsuThreshold ?h"
  have va: "valid_threshold ?h a"
    using assms by (simp add: two_peaks_valid)
  from otsu_threshold_valid(1) [OF two_peaks_length va]
  have T: "a \<le> ?T" "?T < b" by (simp_all add: two_peaks_valid [OF assms])
  have "\<not> a < ?T"
  proof
    assume "a < ?T"
    from otsu_threshold_valid(3) [OF two_peaks_length va this]
    show False
      using T assms by (simp add: two_peaks_variance)
  qed
  with T(1) show ?thesis by simp
qed

lemma two_peaks_stops:
  assumes "a < b" and "b < 256" and "0 < p" and "0 < q" and "t < 256"
  shows "stops_at (two_peaks a p b q) t \<longleftrightarrow> b \<le> t"
  using assms(1,3,4)
  by (auto simp: stops_at_def wF_at_def two_peaks_wB [OF assms(1,2,5)]
      two_peaks_total [OF assms(1,2)])

lemma two_peaks_evaluated:
  assumes "a < b" and "b < 256" and "0 < p" and "0 < q"
  shows "Evaluated a p (int q) (between_class_variance p (int q) (a * p) (int (b * q)))
         \<in> set (events (otsu_run (two_peaks a p b q)))"
proof -
  let ?h = "two_peaks a p b q"
  have a256: "a < 256" using assms by simp
  from otsu_run_events [OF two_peaks_length, of a p b q] obtain m where m: "m \<le> 256"
    "events (otsu_run ?h) = map (scan_event ?h) [0..<m]"
    "m < 256 \<longrightarrow> 0 < m \<and> stops_at ?h (m - 1)"
    by blast
  have "a < m"
  proof (rule ccontr)
    assume "\<not> a < m"
    with a256 m(3) have "0 < m" "stops_at ?h (m - 1)" "m - 1 < 256" "m - 1 < b"
      using assms(1) by simp_all
    then show False by (simp add: two_peaks_stops [OF assms])
  qed
  then have "scan_event ?h a \<in> set (events (otsu_run ?h))" by (simp add: m(2))
  moreover have "scan_event ?h a
      = Evaluated a p (int q) (between_class_variance p (int q) (a * p) (int (b * q)))"
    using assms two_peaks_variance [OF assms(1,2), of a p q]
    by (simp add: scan_event_def wF_at_def two_peaks_wB [OF assms(1,2) a256]
        two_peaks_total [OF assms(1,2)])
  ultimately show ?thesis by simp
qed

lemma otsu_between_extremes:
  assumes len: "length h = 256" and ab: "a < b" "b < 256"
      and occ: "h ! a \<noteq> 0" "h ! b \<noteq> 0"
      and below: "\<forall>i<a. h ! i = 0" and above: "\<forall>i. b < i \<and> i < 256 \<longrightarrow> h ! i = 0"
  shows "a \<le> calculateOtsuThreshold h \<and> calculateOtsuThreshold h < b"
proof -
  let ?T = "calculateOtsuThreshold h"
  have a: "a < 256" using ab by simp
  have "h ! b \<le> (\<Sum>i\<in>{a<..<256}. h ! i)"
    using ab by (intro member_le_sum) auto
  with occ(2) have "0 < (\<Sum>i\<in>{a<..<256}. h ! i)" by linarith
  then have "wF_at h a \<noteq> 0"
    unfolding wF_at_sum [OF len a] by linarith
  moreover have "wB_at h a \<noteq> 0" using occ(1) by (simp add: wB_at_Suc)
  ultimately have "valid_threshold h a" using a by (simp add: valid_threshold_def)
  from otsu_threshold_valid(1) [OF len this]
  have T: "?T < 256" "wB_at h ?T \<noteq> 0" "wF_at h ?T \<noteq> 0"
    by (simp_all add: valid_threshold_def)
  have "a \<le> ?T"
  proof (rule ccontr)
    assume "\<not> a \<le> ?T"
    then have "\<forall>i\<in>{..?T}. h ! i = 0" using below by auto
    then have "wB_at h ?T = 0" by (simp add: wB_at_def)
    with T(2) show False by simp
  qed
  moreover have "?T < b"
  proof (rule ccontr)
    assume "\<not> ?T < b"
    then have "\<forall>i\<in>{?T<..<256}. h ! i = 0" using above by auto
    then have "wF_at h ?T = 0" by (simp add: wF_at_sum [OF len T(1)])
    with T(3) show False by simp
  qed
  ultimately show ?thesis by simp
qed

lemma gauss_twice: "2 * (\<Sum>i\<le>t. i) = t * Suc t" for t :: nat
  by (induction t) simp_all

lemma uniform_sums:
  assumes "t < 256"
  shows "wB_at (replicate 256 c) t = c * Suc t"
    and "2 * sumB_at (replicate 256 c) t = c * (t * Suc t)"
    and "total_count (replicate 256 c) = c * 256"
    and "2 * intensity_sum (replicate 256 c) = c * 65280"
proof -
  have "(\<Sum>i\<le>t. replicate 256 c ! i) = (\<Sum>i\<le>t. c)"
    using assms by (intro sum.cong) simp_all
  then show "wB_at (replicate 256 c) t = c * Suc t" by (simp add: wB_at_def)
  have "(\<Sum>i\<le>t. i * replicate 256 c ! i) = (\<Sum>i\<le>t. i * c)"
    using assms by (intro sum.cong) simp_all
  then have "sumB_at (replicate 256 c) t = c * (\<Sum>i\<le>t. i)"
    by (simp add: sumB_at_def sum_distrib_left mult.commute)
  then show "2 * sumB_at (replicate 256 c) t = c * (t * Suc t)"
    using gauss_twice [of t] by (simp add: mult.left_commute)
  show "total_count (replicate 256 c) = c * 256" by (simp add: total_count_def sum_list_replicate)
  have "(\<Sum>i<256. i * replicate 256 c ! i) = (\<Sum>i\<le>255. i * c)"
    by (intro sum.cong) (auto simp: lessThan_Suc_atMost [symmetric])
  then have "intensity_sum (replicate 256 c) = c * (\<Sum>i\<le>255. i)"
    by (simp add: intensity_sum_def sum_distrib_left mult.commute)
  then show "2 * intensity_sum (replicate 256 c) = c * 65280"
    using gauss_twice [of 255] by (simp add: mult.left_commute)
qed

lemma uniform_valid:
  assumes "0 < c"
  shows "valid_threshold (replicate 256 c) t \<longleftrightarrow> t < 255"
proof (cases "t < 256")
  case True
  then show ?thesis
    using assms by (auto simp: valid_threshold_def wF_at_def uniform_sums(1,3) [OF True])
next
  case False
  then show ?thesis by (simp add: valid_threshold_def)
qed

lemma uniform_variance:
  assumes c: "0 < c" and t: "t < 255"
  shows "variance_at (replicate 256 c) t = 16384 * fl (of_nat (c * c * (Suc t * (255 - t))))"
proof -
  let ?h = "replicate 256 c"
  have t': "t < 256" using t by simp
  note s = uniform_sums [OF t', of c]
  define sb where "sb = sumB_at ?h t"
  define isum where "isum = intensity_sum ?h"
  have sb2: "2 * sb = c * (t * Suc t)" using s(2) by (simp add: sb_def)
  have is2: "2 * isum = c * 65280" using s(4) by (simp add: isum_def)
  have wf: "wF_at ?h t = int (c * (255 - t))"
    using t by (simp add: wF_at_def s(1,3) algebra_simps of_nat_diff)
  have two: "(2::rat) \<noteq> 0" by simp
  have "c * Suc t \<noteq> 0" using c by simp
  then have nzb: "(of_nat (c * Suc t) :: rat) \<noteq> 0" by (metis of_nat_eq_0_iff)
  have "sb * 2 = t * (c * Suc t)" using sb2 by (simp add: algebra_simps)
  then have "(of_nat (sb * 2) :: rat) = of_nat (t * (c * Suc t))" by (simp only:)
  then have "(of_nat sb :: rat) * 2 = of_nat t * of_nat (c * Suc t)"
    by (simp only: of_nat_mult of_nat_numeral)
  with frac_eq_eq [OF nzb two, of "of_nat sb" "of_nat t"]
  have "(of_nat sb :: rat) / of_nat (c * Suc t) = of_nat t / 2" by blast
  moreover have "fl (of_int (int t) / 2) = of_int (int t) / 2"
    using t by (intro fl_half) simp
  ultimately have mB: "js_div (of_nat sb) (of_nat (c * Suc t)) = of_nat t / 2"
    unfolding js_div_def by (simp only: of_int_of_nat_eq)
  have "c * (255 - t) \<noteq> 0" using c t by simp
  then have nzf: "(of_int (int (c * (255 - t))) :: rat) \<noteq> 0"
    by (metis of_int_of_nat_eq of_nat_eq_0_iff)
  have "(int isum - int sb) * 2 = (int t + 256) * int (c * (255 - t))"
  proof -
    have "(int isum - int sb) * 2 = int (2 * isum) - int (2 * sb)" by simp
    also have "\<dots> = int (c * 65280) - int (c * (t * Suc t))" by (simp only: sb2 is2)
    also have "\<dots> = (int t + 256) * int (c * (255 - t))"
      using t by (simp add: algebra_simps of_nat_diff)
    finally show ?thesis .
  qed
  then have "(of_int ((int isum - int sb) * 2) :: rat)
             = of_int ((int t + 256) * int (c * (255 - t)))"
    by (simp only:)
  then have "(of_int (int isum - int sb) :: rat) * 2
             = of_int (int t + 256) * of_int (int (c * (255 - t)))"
    by (simp only: of_int_mult of_int_numeral)
  with frac_eq_eq [OF nzf two, of "of_int (int isum - int sb)" "of_int (int t + 256)"]
  have "(of_int (int isum - int sb) :: rat) / of_int (int (c * (255 - t)))
        = of_int (int t + 256) / 2"
    by blast
  moreover have "fl (of_int (int t + 256) / 2) = of_int (int t + 256) / 2"
    using t by (intro fl_half) simp
  ultimately have mF: "js_div (of_int (int isum - int sb)) (of_int (int (c * (255 - t))))
                 = of_int (int t + 256) / 2"
    unfolding js_div_def by (simp only:)
  have "of_nat t / 2 - of_int (int t + 256) / 2 = (of_int (- 128) :: rat)"
    by (simp add: diff_divide_distrib [symmetric])
  then have d: "js_sub (of_nat t / 2) (of_int (int t + 256) / 2) = - 128"
    unfolding js_sub_def using fl_int [of "- 128"] by simp
  define p1 where "p1 = js_mul (of_nat (c * Suc t)) (of_int (int (c * (255 - t))))"
  have "c * Suc t * (c * (255 - t)) = c * c * (Suc t * (255 - t))"
    by (simp only: mult_ac)
  then have "(of_nat (c * Suc t * (c * (255 - t))) :: rat)
             = of_nat (c * c * (Suc t * (255 - t)))"
    by (simp only:)
  then have "(of_nat (c * Suc t) :: rat) * of_int (int (c * (255 - t)))
             = of_nat (c * c * (Suc t * (255 - t)))"
    by (metis of_nat_mult of_int_of_nat_eq)
  then have p1: "p1 = fl (of_nat (c * c * (Suc t * (255 - t))))"
    by (simp only: p1_def js_mul_def)
  have idem: "fl p1 = p1" by (simp add: p1 fl_idem)
  have p2: "js_mul p1 (- 128) = - (128 * p1)"
    by (simp only: js_mul_def fl_times_128 idem)
  have e14: "- (128 * p1) * (- 128) = pow2 14 * p1" by (simp add: pow2_def)
  have "fl (pow2 14 * p1) = pow2 14 * p1" by (simp only: fl_scale idem)
  then have "fl (- (128 * p1) * (- 128)) = pow2 14 * p1" by (simp only: e14)
  moreover have "pow2 14 = 16384" by (simp add: pow2_def)
  ultimately have p3: "js_mul (- (128 * p1)) (- 128) = 16384 * p1"
    by (simp only: js_mul_def)
  have "variance_at ?h t = js_mul (js_mul p1 (- 128)) (- 128)"
    by (simp only: variance_at_def between_class_variance_def Let_def wf s(1)
        sb_def [symmetric] isum_def [symmetric] mB mF d p1_def [symmetric])
  also have "\<dots> = 16384 * p1" by (simp only: p2 p3)
  finally show ?thesis by (simp only: p1)
qed

lemma parabola_below:
  assumes "t < 255" and "t \<noteq> 127"
  shows "Suc t * (255 - t) \<le> 16383"
proof -
  have "0 < (int t - 127) * (int t - 127)"
  proof (cases "127 < t")
    case True
    then show ?thesis by (intro mult_pos_pos) simp_all
  next
    case False
    with assms(2) have "t < 127" by simp
    then show ?thesis by (intro mult_neg_neg) simp_all
  qed
  then have "1 \<le> (int t - 127) * (int t - 127)" by simp
  moreover have "(int t + 1) * (255 - int t) = 16384 - (int t - 127) * (int t - 127)"
    by (simp add: algebra_simps)
  ultimately have "(int t + 1) * (255 - int t) \<le> 16383" by simp
  moreover have "int (Suc t * (255 - t)) = (int t + 1) * (255 - int t)"
  proof -
    have a: "int (255 - t) = 255 - int t" using assms(1) by simp
    have b: "int (Suc t) = int t + 1" by simp
    show ?thesis by (simp only: of_nat_mult a b)
  qed
  ultimately show ?thesis by linarith
qed

lemma uniform_threshold:
  assumes c: "0 < c"
  shows "calculateOtsuThreshold (replicate 256 c) = 127"
proof -
  let ?h = "replicate 256 c"
  let ?T = "calculateOtsuThreshold ?h"
  have len: "length ?h = 256" by simp
  have v127: "valid_threshold ?h 127" by (simp add: uniform_valid [OF c])
  from otsu_threshold_valid(1) [OF len v127] have T: "?T < 255"
    by (simp add: uniform_valid [OF c])
  from otsu_threshold_valid(2) [OF len v127]
  have le: "variance_at ?h 127 \<le> variance_at ?h ?T" .
  show ?thesis
  proof (rule ccontr)
    assume ne: "?T \<noteq> 127"
    define K :: rat where "K = of_nat (c * c)"
    have K: "0 < K" using c by (simp add: K_def)
    define g where "g = Suc ?T * (255 - ?T)"
    have g: "g \<le> 16383" unfolding g_def by (rule parabola_below [OF T ne])
    have g0: "0 < g" using T by (simp add: g_def)
    have x: "(of_nat (c * c * g) :: rat) = K * of_nat g" by (simp add: K_def)
    have y: "(of_nat (c * c * (Suc 127 * (255 - 127))) :: rat) = K * 16384" by (simp add: K_def)
    have "(of_nat g :: rat) \<le> 16383" using g by (metis of_nat_le_iff of_nat_numeral)
    then have "of_nat g * (2 ^ 53 + 1) < (16384 :: rat) * (2 ^ 53 - 1)" by simp
    then have "K * (of_nat g * (2 ^ 53 + 1)) < K * (16384 * (2 ^ 53 - 1))"
      using K by (simp only: mult_less_cancel_left_pos)
    then have "K * of_nat g * (2 ^ 53 + 1) < K * 16384 * (2 ^ 53 - 1)"
      by (simp only: mult.assoc)
    moreover have "0 < K * of_nat g" using K g0 by simp
    ultimately have "fl (K * of_nat g) < fl (K * 16384)" by (rule fl_separated [rotated])
    then have "variance_at ?h ?T < variance_at ?h 127"
      by (simp only: uniform_variance [OF c T] g_def [symmetric] x
          uniform_variance [OF c, of 127, simplified] y [simplified])
    with le show False by simp
  qed
qed

subsection \<open>The claims\<close>



lemma evaluated_event:
  assumes "Evaluated i b f v \<in> set (map (scan_event h) [0..<m])"
  shows "b \<noteq> 0 \<and> f \<noteq> 0 \<and> b = wB_at h i \<and> f = wF_at h i \<and> v = variance_at h i"
proof -
  from assms obtain t where "scan_event h t = Evaluated i b f v" by auto
  then show ?thesis
    by (auto simp: scan_event_def split: if_splits)
qed

lemma zero_histogram_wB: "t < 256 \<Longrightarrow> wB_at (replicate 256 0) t = 0"
  by (simp add: wB_at_def)

lemma zero_histogram_events: "events (otsu_run (replicate 256 0)) = map Skipped [0..<256]"
proof -
  let ?h = "replicate 256 (0::nat)"
  have len: "length ?h = 256" by simp
  from otsu_run_events [OF len] obtain m where m: "m \<le> 256"
    "events (otsu_run ?h) = map (scan_event ?h) [0..<m]"
    "m < 256 \<longrightarrow> 0 < m \<and> stops_at ?h (m - 1)"
    by blast
  have "m = 256"
  proof (rule ccontr)
    assume "m \<noteq> 256"
    with m(1,3) have "0 < m" "stops_at ?h (m - 1)" "m - 1 < 256" by simp_all
    then show False using zero_histogram_wB [of "m - 1"] by (simp add: stops_at_def)
  qed
  moreover have "map (scan_event ?h) [0..<256] = map Skipped [0..<256]"
    by (rule map_cong) (simp_all add: scan_event_def zero_histogram_wB del: upt_rec_numeral)
  ultimately show ?thesis using m(2) by (simp only:)
qed

lemma zero_histogram_threshold: "calculateOtsuThreshold (replicate 256 0) = 0"
proof (rule otsu_threshold_none)
  show "length (replicate 256 (0::nat)) = 256" by simp
  show "\<forall>t. \<not> valid_threshold (replicate 256 0) t"
    using zero_histogram_wB by (auto simp: valid_threshold_def)
qed

text \<open>
  Claim C10. \<^verbatim>\<open>calculateOtsuThreshold\<close> is defined by recursion over the 256 indices, so it
  returns for every histogram. In a run on a histogram of 256 bins, every iteration that
  evaluates the two divisions does so with the divisors \<open>wB\<close> and \<open>wF\<close> of its index, both
  nonzero. On the all-zero histogram every iteration is skipped and the result is \<open>0\<close>.
\<close>

theorem otsu_divisions_safe:
  assumes "length h = 256"
  shows "(\<forall>i b f v. Evaluated i b f v \<in> set (events (otsu_run h)) \<longrightarrow>
            b \<noteq> 0 \<and> f \<noteq> 0 \<and> b = wB_at h i \<and> f = wF_at h i)
       \<and> events (otsu_run (replicate 256 0)) = map Skipped [0..<256]
       \<and> calculateOtsuThreshold (replicate 256 0) = 0"
proof -
  from otsu_run_events [OF assms] obtain m where
    "events (otsu_run h) = map (scan_event h) [0..<m]" by blast
  then have "\<forall>i b f v. Evaluated i b f v \<in> set (events (otsu_run h)) \<longrightarrow>
            b \<noteq> 0 \<and> f \<noteq> 0 \<and> b = wB_at h i \<and> f = wF_at h i"
    using evaluated_event [of _ _ _ _ h m] by (simp only:) blast
  then show ?thesis
    using zero_histogram_events zero_histogram_threshold by blast
qed

theorem otsu_divisions_safe_witness:
  "length (two_peaks 10 1 20 1) = 256
   \<and> Evaluated 10 1 1 (between_class_variance 1 1 10 20)
       \<in> set (events (otsu_run (two_peaks 10 1 20 1)))
   \<and> wB_at (two_peaks 10 1 20 1) 10 = 1 \<and> wF_at (two_peaks 10 1 20 1) 10 = 1
   \<and> events (otsu_run (replicate 256 0)) = map Skipped [0..<256]
   \<and> calculateOtsuThreshold (replicate 256 0) = 0"
proof -
  have e: "Evaluated 10 1 1 (between_class_variance 1 1 10 20)
       \<in> set (events (otsu_run (two_peaks 10 1 20 1)))"
    using two_peaks_evaluated [of 10 20 1 1] by simp
  from otsu_divisions_safe [OF two_peaks_length, of 10 1 20 1] e
  have "1 = wB_at (two_peaks 10 1 20 1) 10 \<and> 1 = wF_at (two_peaks 10 1 20 1) 10
        \<and> events (otsu_run (replicate 256 0)) = map Skipped [0..<256]
        \<and> calculateOtsuThreshold (replicate 256 0) = 0"
    by blast
  with e two_peaks_length [of 10 1 20 1] show ?thesis by simp
qed

text \<open>
  Claim C6, as the code has it. For a histogram whose only occupied bins are \<open>a < b\<close>, the
  variance is the same at every \<open>t\<close> with \<open>a \<le> t < b\<close>, and the strict comparison keeps the
  first: the threshold returned is \<open>a\<close> itself. In general, when \<open>a\<close> is the lowest and \<open>b\<close>
  the highest occupied bin, the threshold lies in \<open>a \<le> t < b\<close>. For a uniform histogram
  with a positive count the threshold is \<open>127\<close> (the variance has a single maximum there).
\<close>

theorem otsu_peaks_and_uniform:
  "(a < b \<and> b < 256 \<and> 0 < p \<and> 0 < q \<longrightarrow>
      calculateOtsuThreshold ((replicate 256 0)[a := p, b := q]) = a)
   \<and> (length h = 256 \<and> a < b \<and> b < 256 \<and> h ! a \<noteq> 0 \<and> h ! b \<noteq> 0
        \<and> (\<forall>i<a. h ! i = 0) \<and> (\<forall>i. b < i \<and> i < 256 \<longrightarrow> h ! i = 0) \<longrightarrow>
      a \<le> calculateOtsuThreshold h \<and> calculateOtsuThreshold h < b)
   \<and> (0 < c \<longrightarrow> calculateOtsuThreshold (replicate 256 c) = 127)"
  using two_peaks_threshold [of a b p q] otsu_between_extremes [of h a b]
    uniform_threshold [of c]
  by (simp add: two_peaks_def)

theorem otsu_peaks_and_uniform_witness:
  "calculateOtsuThreshold ((replicate 256 0)[10 := 4, 20 := 9]) = 10
   \<and> length ((replicate 256 0)[10 := 4, 20 := 9 :: nat]) = 256
   \<and> (replicate 256 0)[10 := 4, 20 := 9 :: nat] ! 10 \<noteq> 0
   \<and> (replicate 256 0)[10 := 4, 20 := 9 :: nat] ! 20 \<noteq> 0
   \<and> 10 \<le> calculateOtsuThreshold ((replicate 256 0)[10 := 4, 20 := 9])
   \<and> calculateOtsuThreshold ((replicate 256 0)[10 := 4, 20 := 9]) < 20
   \<and> calculateOtsuThreshold (replicate 256 3) = 127"
proof -
  let ?h = "(replicate 256 0)[10 := 4, 20 := 9 :: nat]"
  have h: "?h ! i = (if i = 10 then 4 else 0) + (if i = 20 then 9 else 0)" if "i < 256" for i
    using two_peaks_nth [of 10 20 i 4 9] that by (simp add: two_peaks_def)
  have h1: "length ?h = 256" by simp
  have h2: "?h ! 10 \<noteq> 0" "?h ! 20 \<noteq> 0" by (simp_all add: h)
  have h3: "\<forall>i<10. ?h ! i = 0" by (simp add: h)
  have h4: "\<forall>i. 20 < i \<and> i < 256 \<longrightarrow> ?h ! i = 0" by (simp add: h)
  from otsu_peaks_and_uniform [of 10 20 4 9 ?h 3] h1 h2 h3 h4
  show ?thesis by simp
qed

text \<open>
  Claim C6 as stated fails: with one pixel of grey value 10 and one of grey value 20, the
  threshold returned is 10, which is not strictly between the two peaks.
\<close>

theorem otsu_two_peaks_returns_lower_peak:
  "calculateOtsuThreshold ((replicate 256 0)[10 := 1, 20 := 1]) = 10"
  using two_peaks_threshold [of 10 20 1 1] by (simp add: two_peaks_def)


section \<open>Luminance extraction\<close>


















lemma exact_rounding_example: "\<lfloor>((299 * 0 + 587 * 36 + 114 * 12) / 1000 :: rat) + 1 / 2\<rfloor> = 23"
  by (simp add: floor_eq_iff)



end
